theory Spec2Isabelle
  imports Complex_Main "HOL-Library.Multiset"
begin

section \<open>Python values shared by both modules\<close>

text \<open>
  An exception that leaves a function is the \<open>Inl\<close> branch of a sum. Floating-point
  numbers are real numbers; NaN and the infinities are not among them (the JSON values of
  the verifier apart). Where the rounding of doubles decides a property, in the timeline,
  each operation is the exact one followed by rounding to the nearest double; elsewhere the
  arithmetic is exact.
\<close>

datatype py_error = TypeError | AttributeError | KeyError | IndexError | ValueError
  | OverflowError | RequestException

text \<open>\<open>int(v)\<close> on a float truncates towards zero; \<open>round(v)\<close> rounds to the nearest
  integer, a tie to the even one; \<open>round(v, n)\<close> does so at the \<open>n\<close>-th decimal.\<close>

definition py_int :: "real \<Rightarrow> int" where
  "py_int v = (if v < 0 then \<lceil>v\<rceil> else \<lfloor>v\<rfloor>)"

definition py_round :: "real \<Rightarrow> int" where
  "py_round v =
     (let f = \<lfloor>v\<rfloor>; d = v - of_int f
      in if d < 1 / 2 then f else if 1 / 2 < d then f + 1 else if even f then f else f + 1)"

definition py_round_ndigits :: "real \<Rightarrow> nat \<Rightarrow> real" where
  "py_round_ndigits v n = of_int (py_round (v * 10 ^ n)) / 10 ^ n"

text \<open>Rounding to the nearest double (binary64, normal range): a number with binary
  exponent \<open>e\<close> is rounded to a multiple of \<open>2 ^ (e - 52)\<close>, so that 53 significant bits
  remain, a tie going to the even multiple.\<close>

definition binary_exponent :: "real \<Rightarrow> int" where
  "binary_exponent x = \<lfloor>log 2 \<bar>x\<bar>\<rfloor>"

definition ulp_of :: "int \<Rightarrow> real" where
  "ulp_of e = 2 powi (e - 52)"

definition fl :: "real \<Rightarrow> real" where
  "fl x = (if x = 0 then 0
           else of_int (py_round (x / ulp_of (binary_exponent x))) * ulp_of (binary_exponent x))"

text \<open>The four operations on doubles.\<close>

definition fadd :: "real \<Rightarrow> real \<Rightarrow> real" where
  "fadd a b = fl (a + b)"

definition fsub :: "real \<Rightarrow> real \<Rightarrow> real" where
  "fsub a b = fl (a - b)"

definition fmul :: "real \<Rightarrow> real \<Rightarrow> real" where
  "fmul a b = fl (a * b)"

definition fdiv :: "real \<Rightarrow> real \<Rightarrow> real" where
  "fdiv a b = fl (a / b)"

text \<open>\<open>d[k] = v\<close> on a dict kept as an association list in insertion order: an existing
  key keeps its place and gets the new value, a new key goes to the end.\<close>

fun dict_set :: "('k \<times> 'v) list \<Rightarrow> 'k \<Rightarrow> 'v \<Rightarrow> ('k \<times> 'v) list" where
  "dict_set [] k v = [(k, v)]"
| "dict_set ((k', v') # d) k v = (if k' = k then (k, v) # d else (k', v') # dict_set d k v)"

section \<open>\<open>f1_data.py\<close>: the telemetry pipeline\<close>

definition FPS :: real where
  "FPS = 25"

text \<open>\<open>DT = 1 / FPS\<close>, a division of doubles: the double next to 0.04.\<close>

definition DT :: real where
  "DT = fdiv 1 FPS"

subsection \<open>Session input\<close>

text \<open>One row of \<open>lap.get_telemetry()\<close>: the columns the source reads.\<close>

record telemetry_row =
  row_SessionTime :: real
  row_X :: real
  row_Y :: real
  row_Distance :: real
  row_RelativeDistance :: real
  row_Speed :: real
  row_nGear :: real
  row_DRS :: real

text \<open>One lap of \<open>laps_driver.iterlaps()\<close>. The compound is kept as the integer that
  \<open>get_tyre_compound_int(lap.Compound)\<close> returns; the table behind that function is in
  \<open>src/lib/tyres.py\<close> and plays no part in what follows.\<close>

record lap =
  LapNumber :: real
  tyre_compund_as_int :: real
  lap_tel :: "telemetry_row list"

text \<open>One index of the parallel arrays \<open>t_all\<close>, \<open>x_all\<close>, \<open>y_all\<close>, \<open>race_dist_all\<close>, ...:
  the ten arrays always have the same length and are permuted together, so they are kept
  as one list of rows.\<close>

record sample =
  s_t :: real
  s_x :: real
  s_y :: real
  s_dist :: real
  s_rel_dist :: real
  s_lap :: real
  s_tyre :: real
  s_speed :: real
  s_gear :: real
  s_drs :: real

subsection \<open>Step 1: per-driver lap normaliser (lines 116--181)\<close>

text \<open>\<open>d_lap = d_lap - d_lap.min()\<close>\<close>

definition d_lap :: "lap \<Rightarrow> real list" where
  "d_lap l = (let d = map row_Distance (lap_tel l) in map (\<lambda>v. v - Min (set d)) d)"

text \<open>\<open>lap_length = d_lap.max()\<close>\<close>

definition lap_length :: "lap \<Rightarrow> real" where
  "lap_length l = Max (set (d_lap l))"

text \<open>The rows one lap contributes: \<open>race_d_lap = total_dist_so_far + d_lap\<close>, the lap
  number and the compound broadcast over the lap (\<open>np.full_like\<close>).\<close>

definition lap_rows :: "real \<Rightarrow> lap \<Rightarrow> sample list" where
  "lap_rows total_dist_so_far l =
     map (\<lambda>(r, d). \<lparr>s_t = row_SessionTime r, s_x = row_X r, s_y = row_Y r,
                     s_dist = total_dist_so_far + d,
                     s_rel_dist = row_RelativeDistance r,
                     s_lap = LapNumber l, s_tyre = tyre_compund_as_int l,
                     s_speed = row_Speed r, s_gear = row_nGear r, s_drs = row_DRS r\<rparr>)
         (zip (lap_tel l) (d_lap l))"

text \<open>The body of \<open>for _, lap in laps_driver.iterlaps()\<close>; the state is
  \<open>total_dist_so_far\<close> and the chunks appended so far.\<close>

definition lap_step :: "lap \<Rightarrow> real \<times> sample list list \<Rightarrow> real \<times> sample list list" where
  "lap_step l st =
     (case st of (total_dist_so_far, chunks) \<Rightarrow>
        if lap_tel l = [] then st
        else (total_dist_so_far + lap_length l, chunks @ [lap_rows total_dist_so_far l]))"

text \<open>The lap loop followed by \<open>if not t_all: continue\<close> (the result \<open>None\<close>) and
  \<open>np.concatenate\<close>.\<close>

definition merge_laps :: "lap list \<Rightarrow> sample list option" where
  "merge_laps laps =
     (case fold lap_step laps (0, []) of (total_dist_so_far, chunks) \<Rightarrow>
        if chunks = [] then None else Some (concat chunks))"

text \<open>\<open>np.argsort\<close> with its default kind is not a stable sort, so which of several equal
  timestamps comes first is not fixed by the source. \<open>is_argsort ts order\<close> says that
  \<open>order\<close> is one of the index arrays \<open>np.argsort(ts)\<close> may return: a permutation of the
  indices that puts \<open>ts\<close> in non-decreasing order.\<close>

definition is_argsort :: "real list \<Rightarrow> nat list \<Rightarrow> bool" where
  "is_argsort ts order \<longleftrightarrow> mset order = mset [0..<length ts] \<and> sorted (map (\<lambda>i. ts ! i) order)"

text \<open>\<open>a[order]\<close> for an index array that \<open>is_argsort\<close> accepts (every index in range).\<close>

definition take_order :: "'a list \<Rightarrow> nat list \<Rightarrow> 'a list" where
  "take_order a order = map (\<lambda>i. a ! i) order"

text \<open>Lines 116--181 for one driver: the lap loop, then all channels reordered by
  \<open>order = argsort(t_all)\<close>. \<open>None\<close> is a driver who is skipped.\<close>

definition normalise_driver :: "(real list \<Rightarrow> nat list) \<Rightarrow> lap list \<Rightarrow> sample list option" where
  "normalise_driver argsort laps_driver =
     (case merge_laps laps_driver of
        None \<Rightarrow> None
      | Some merged \<Rightarrow> Some (take_order merged (argsort (map s_t merged))))"

text \<open>The race-distance channel of the trace (\<open>race_dist_all[order]\<close>).\<close>

definition dist_channel :: "(real list \<Rightarrow> nat list) \<Rightarrow> lap list \<Rightarrow> real list" where
  "dist_channel argsort laps_driver =
     (case normalise_driver argsort laps_driver of None \<Rightarrow> [] | Some rows \<Rightarrow> map s_dist rows)"

text \<open>One index array that \<open>is_argsort\<close> accepts: equal timestamps keep their order. It is
  the only one when the timestamps are pairwise different.\<close>

definition stable_argsort :: "real list \<Rightarrow> nat list" where
  "stable_argsort ts = map snd (sort_key fst (zip ts [0..<length ts]))"

text \<open>Two conditions on the laps of a driver. Within a lap, time increases from sample to
  sample and the in-lap distance does not decrease.\<close>

definition lap_ordered :: "lap \<Rightarrow> bool" where
  "lap_ordered l \<longleftrightarrow>
     sorted_wrt (<) (map row_SessionTime (lap_tel l)) \<and> sorted (map row_Distance (lap_tel l))"

text \<open>Laps do not overlap in time: no sample of a lap is earlier than a sample of a lap
  before it.\<close>

definition laps_in_sequence :: "lap list \<Rightarrow> bool" where
  "laps_in_sequence laps \<longleftrightarrow>
     sorted_wrt (\<lambda>a b. \<forall>r\<in>set (lap_tel a). \<forall>r'\<in>set (lap_tel b).
                          row_SessionTime r \<le> row_SessionTime r') laps"

text \<open>Two samples of a trace are in order when the second is neither earlier nor behind,
  and samples of the same instant are at the same distance.\<close>

definition in_order :: "sample \<Rightarrow> sample \<Rightarrow> bool" where
  "in_order a b \<longleftrightarrow>
     s_t a \<le> s_t b \<and> s_dist a \<le> s_dist b \<and> (s_t a = s_t b \<longrightarrow> s_dist a = s_dist b)"

text \<open>What the lap loop keeps true of the samples merged so far when laps are ordered and
  in sequence: they are pairwise in order, none is beyond the running total, and the latest
  of them is exactly at the running total.\<close>

definition chained :: "real \<Rightarrow> sample list \<Rightarrow> bool" where
  "chained tot ms \<longleftrightarrow>
     sorted_wrt in_order ms \<and> (\<forall>a\<in>set ms. s_dist a \<le> tot)
     \<and> (\<forall>a\<in>set ms. (\<forall>a'\<in>set ms. s_t a' \<le> s_t a) \<longrightarrow> s_dist a = tot)"

subsection \<open>The normaliser in the words of the specification\<close>

text \<open>Shift in-lap distance so its minimum is 0.\<close>

definition spec_shifted :: "real list \<Rightarrow> real list" where
  "spec_shifted ds = map (\<lambda>d. d - Min (set ds)) ds"

text \<open>Lap length = max shifted distance.\<close>

definition spec_lap_length :: "real list \<Rightarrow> real" where
  "spec_lap_length ds = Max (set (spec_shifted ds))"

text \<open>Race-cumulative-distance = running total + shifted in-lap distance; the running total
  grows by the lap length after the lap; laps without samples are skipped.\<close>

fun spec_race_distance :: "real \<Rightarrow> real list list \<Rightarrow> real list" where
  "spec_race_distance running [] = []"
| "spec_race_distance running (ds # rest) =
     (if ds = [] then spec_race_distance running rest
      else map (\<lambda>d. running + d) (spec_shifted ds)
           @ spec_race_distance (running + spec_lap_length ds) rest)"

text \<open>The race-distance channel the normaliser builds (\<open>np.concatenate(race_dist_all)\<close>),
  empty for a driver who is skipped.\<close>

definition race_dist_all :: "lap list \<Rightarrow> real list" where
  "race_dist_all laps = (case merge_laps laps of None \<Rightarrow> [] | Some rows \<Rightarrow> map s_dist rows)"

subsection \<open>Step 1, outer loop: all drivers, \<open>global_t_min\<close> and \<open>global_t_max\<close> (lines 89--199)\<close>

text \<open>The state of \<open>for driver_no in drivers\<close>: the dict \<open>driver_data\<close> and the two
  bounds, \<open>None\<close> until a driver with samples has been seen.\<close>

record collect_state =
  driver_data :: "(string \<times> sample list) list"
  global_t_min :: "real option"
  global_t_max :: "real option"

text \<open>One driver: its code (\<open>driver_codes[driver_no]\<close>) and its laps in the order
  \<open>iterlaps\<close> yields them. \<open>argsort\<close> is the index array \<open>np.argsort\<close> returns.
  A driver without laps or without samples is skipped (both \<open>continue\<close>s).\<close>

definition driver_step ::
  "(real list \<Rightarrow> nat list) \<Rightarrow> string \<times> lap list \<Rightarrow> collect_state \<Rightarrow> collect_state" where
  "driver_step argsort drv st =
     (case drv of (code, laps_driver) \<Rightarrow>
        (case normalise_driver argsort laps_driver of
           None \<Rightarrow> st
         | Some rows \<Rightarrow>
             let t_min = Min (set (map s_t rows));
                 t_max = Max (set (map s_t rows))
             in \<lparr>driver_data = dict_set (driver_data st) code rows,
                 global_t_min = Some (case global_t_min st of None \<Rightarrow> t_min | Some g \<Rightarrow> min g t_min),
                 global_t_max = Some (case global_t_max st of None \<Rightarrow> t_max | Some g \<Rightarrow> max g t_max)\<rparr>))"

definition collect_drivers ::
  "(real list \<Rightarrow> nat list) \<Rightarrow> (string \<times> lap list) list \<Rightarrow> collect_state" where
  "collect_drivers argsort drivers =
     fold (driver_step argsort) drivers
       \<lparr>driver_data = [], global_t_min = None, global_t_max = None\<rparr>"

subsection \<open>Step 2: the timeline (line 202)\<close>

text \<open>\<open>np.arange(start, stop, step)\<close> on doubles. The length is the ceiling of
  \<open>(stop - start) / step\<close> as the two double operations give it (no element when it is
  not positive). The first element is \<open>start\<close>, the second \<open>start + step\<close>; with their
  difference \<open>delta\<close>, element \<open>i\<close> from the third on is \<open>start + i * delta\<close>.\<close>

definition np_arange :: "real \<Rightarrow> real \<Rightarrow> real \<Rightarrow> real list" where
  "np_arange start stop step =
     (let len = nat \<lceil>fdiv (fsub stop start) step\<rceil>;
          nxt = fadd start step;
          delta = fsub nxt start
      in map (\<lambda>i. if i = 0 then start else if i = 1 then nxt
                   else fadd start (fmul (real i) delta)) [0..<len])"

text \<open>\<open>np.arange(global_t_min, global_t_max, DT) - global_t_min\<close> for bounds that are
  numbers.\<close>

definition timeline_ticks :: "real \<Rightarrow> real \<Rightarrow> real list" where
  "timeline_ticks a b = map (\<lambda>t. fsub t a) (np_arange a b DT)"

text \<open>Line 202. With the bounds still \<open>None\<close>, \<open>np.arange\<close> raises \<open>TypeError\<close> (it
  subtracts its bounds).\<close>

definition make_timeline :: "real option \<Rightarrow> real option \<Rightarrow> py_error + real list" where
  "make_timeline gmin gmax =
     (case (gmin, gmax) of
        (Some a, Some b) \<Rightarrow> Inr (timeline_ticks a b)
      | _ \<Rightarrow> Inl TypeError)"

subsection \<open>Step 3: resampling (lines 205--252)\<close>

text \<open>\<open>np.interp\<close> at one point \<open>v\<close> over knots \<open>(xp, fp)\<close> sorted by \<open>xp\<close>: the value at the
  first knot left of it, at the last knot right of it, the knot's own value on a knot (the last
  of several equal knots), and the chord between the two neighbouring knots otherwise.
  A trace in \<open>driver_data\<close> has at least one sample, so the equation for no knots (where
  \<open>np.interp\<close> raises) is never reached.\<close>

fun np_interp :: "real \<Rightarrow> (real \<times> real) list \<Rightarrow> real" where
  "np_interp v [] = 0"
| "np_interp v [(x0, y0)] = y0"
| "np_interp v ((x0, y0) # (x1, y1) # ps) =
     (if v < x1 then (if v \<le> x0 then y0 else (y1 - y0) / (x1 - x0) * (v - x0) + y0)
      else np_interp v ((x1, y1) # ps))"

text \<open>One tick of the resampled arrays of one driver; \<open>rows\<close> are the driver's samples,
  time-shifted and sorted.\<close>

definition resample_at :: "sample list \<Rightarrow> real \<Rightarrow> sample" where
  "resample_at rows v =
     (let ch = (\<lambda>f. np_interp v (map (\<lambda>r. (s_t r, f r)) rows))
      in \<lparr>s_t = v, s_x = ch s_x, s_y = ch s_y, s_dist = ch s_dist, s_rel_dist = ch s_rel_dist,
          s_lap = ch s_lap, s_tyre = ch s_tyre, s_speed = ch s_speed, s_gear = ch s_gear,
          s_drs = ch s_drs\<rparr>)"

text \<open>The body of \<open>for code, data in driver_data.items()\<close>: shift, sort again, interpolate
  every channel onto the timeline.\<close>

definition resample_driver ::
  "(real list \<Rightarrow> nat list) \<Rightarrow> real \<Rightarrow> real list \<Rightarrow> sample list \<Rightarrow> sample list" where
  "resample_driver argsort gmin timeline data =
     (let shifted = map (\<lambda>r. r\<lparr>s_t := s_t r - gmin\<rparr>) data;
          order = argsort (map s_t shifted);
          rows = take_order shifted order
      in map (resample_at rows) timeline)"

definition resample ::
  "(real list \<Rightarrow> nat list) \<Rightarrow> real \<Rightarrow> real list \<Rightarrow> (string \<times> sample list) list
     \<Rightarrow> (string \<times> sample list) list" where
  "resample argsort gmin timeline dd =
     fold (\<lambda>(code, data) rd. dict_set rd code (resample_driver argsort gmin timeline data)) dd []"

subsection \<open>Step 4: track-status intervals (lines 256--275)\<close>

record track_status_event =
  ev_Time :: real
  ev_Status :: string

record track_status_interval =
  ts_status :: string
  start_time :: real
  end_time :: "real option"

text \<open>The body of \<open>for status in track_status.to_dict('records')\<close>.\<close>

definition status_step ::
  "real \<Rightarrow> track_status_event \<Rightarrow> track_status_interval list \<Rightarrow> track_status_interval list" where
  "status_step gmin ev formatted =
     (let seconds = ev_Time ev;
          start = seconds - gmin;
          formatted' = (if formatted \<noteq> []
                        then butlast formatted @ [(last formatted)\<lparr>end_time := Some start\<rparr>]
                        else formatted)
      in formatted' @ [\<lparr>ts_status = ev_Status ev, start_time = start, end_time = None\<rparr>])"

definition formatted_track_statuses ::
  "real \<Rightarrow> track_status_event list \<Rightarrow> track_status_interval list" where
  "formatted_track_statuses gmin track_status = fold (status_step gmin) track_status []"

text \<open>The intervals in the words of the specification: an interval ends where the next
  one starts, the last one stays open.\<close>

fun spec_intervals :: "real \<Rightarrow> track_status_event list \<Rightarrow> track_status_interval list" where
  "spec_intervals gmin [] = []"
| "spec_intervals gmin [e] =
     [\<lparr>ts_status = ev_Status e, start_time = ev_Time e - gmin, end_time = None\<rparr>]"
| "spec_intervals gmin (e # e' # es) =
     \<lparr>ts_status = ev_Status e, start_time = ev_Time e - gmin,
      end_time = Some (ev_Time e' - gmin)\<rparr> # spec_intervals gmin (e' # es)"

subsection \<open>Driver status from the race results (lines 63--85)\<close>

text \<open>\<open>sub in s\<close> on strings.\<close>

fun py_in :: "string \<Rightarrow> string \<Rightarrow> bool" where
  "py_in sub [] = (sub = [])"
| "py_in sub (c # cs) = (take (length sub) (c # cs) = sub \<or> py_in sub cs)"

text \<open>One row of \<open>session.results\<close>; an absent or empty abbreviation is the empty string.
  \<open>ClassifiedPosition\<close> is a string in the results table.\<close>

record driver_result =
  Abbreviation :: string
  Status :: string
  ClassifiedPosition :: string
  Laps :: real

record driver_status =
  status :: string
  classification :: string
  laps_completed :: int
  is_finished :: bool
  is_dnf :: bool

definition result_step ::
  "driver_result \<Rightarrow> (string \<rightharpoonup> driver_status) \<Rightarrow> (string \<rightharpoonup> driver_status)" where
  "result_step driver_result dsm =
     (let code = Abbreviation driver_result
      in if code = [] then dsm
         else let fin = (py_in ''Finished'' (Status driver_result) \<or> py_in ''+'' (Status driver_result));
                  dnf = (ClassifiedPosition driver_result \<in> set [''R'', ''D'', ''E'', ''W'', ''N'']
                         \<or> (\<not> fin \<and> 0 < Laps driver_result))
              in dsm(code \<mapsto>
                   \<lparr>status = Status driver_result,
                    classification = ClassifiedPosition driver_result,
                    laps_completed = (if Laps driver_result \<noteq> 0 then py_int (Laps driver_result) else 0),
                    is_finished = fin, is_dnf = dnf\<rparr>))"

definition driver_status_map :: "driver_result list \<Rightarrow> (string \<rightharpoonup> driver_status)" where
  "driver_status_map results = fold result_step results Map.empty"

subsection \<open>Step 5: frames and live leaderboard (lines 278--365)\<close>

text \<open>One entry of \<open>snapshot\<close>.\<close>

record car =
  car_code :: string
  car_dist :: real
  car_x :: real
  car_y :: real
  car_lap :: int
  car_rel_dist :: real
  car_tyre :: real
  car_speed :: real
  car_gear :: int
  car_drs :: int

text \<open>One value of \<open>frame_data\<close>.\<close>

record frame_driver =
  fd_x :: real
  fd_y :: real
  fd_dist :: real
  fd_lap :: int
  fd_rel_dist :: real
  fd_tyre :: real
  position :: nat
  fd_speed :: real
  fd_gear :: int
  fd_drs :: int

record frame =
  frame_t :: real
  frame_lap :: int
  frame_drivers :: "(string \<times> frame_driver) list"
  race_finished :: bool
  leader_finished_frame :: "nat option"

text \<open>What the tick loop carries from one tick to the next.\<close>

record asm_state =
  frames :: "frame list"
  driver_last_seen_lap :: "string \<rightharpoonup> int"
  driver_finish_frame :: "string \<rightharpoonup> nat"
  race_leader_finished_frame :: "nat option"

text \<open>The snapshot at tick \<open>i\<close>: one entry per driver of \<open>resampled_data\<close>, in the dict's
  order. Reading an array beyond its end raises \<open>IndexError\<close>.\<close>

definition snapshot_at :: "(string \<times> sample list) list \<Rightarrow> nat \<Rightarrow> py_error + car list" where
  "snapshot_at resampled_data i =
     (if list_all (\<lambda>(code, d). i < length d) resampled_data
      then Inr (map (\<lambda>(code, d).
                  \<lparr>car_code = code, car_dist = s_dist (d ! i), car_x = s_x (d ! i),
                   car_y = s_y (d ! i), car_lap = py_round (s_lap (d ! i)),
                   car_rel_dist = s_rel_dist (d ! i), car_tyre = s_tyre (d ! i),
                   car_speed = s_speed (d ! i), car_gear = py_int (s_gear (d ! i)),
                   car_drs = py_int (s_drs (d ! i))\<rparr>) resampled_data)
      else Inl IndexError)"

text \<open>\<open>snapshot.sort(key=lambda r: r["dist"], reverse=True)\<close>: a stable sort of the reversed
  list, reversed again.\<close>

definition sort_snapshot :: "car list \<Rightarrow> car list" where
  "sort_snapshot snapshot = rev (sort_key car_dist (rev snapshot))"

text \<open>Lines 313--319: the leader's finish.\<close>

definition leader_finish :: "(string \<rightharpoonup> driver_status) \<Rightarrow> nat \<Rightarrow> car \<Rightarrow> asm_state \<Rightarrow> asm_state" where
  "leader_finish dsm i leader st =
     (case dsm (car_code leader) of
        None \<Rightarrow> st
      | Some s \<Rightarrow>
          if laps_completed s < car_lap leader \<and> race_leader_finished_frame st = None
          then st\<lparr>race_leader_finished_frame := Some i,
                  driver_finish_frame := (driver_finish_frame st)(car_code leader \<mapsto> i)\<rparr>
          else st)"

text \<open>Lines 322--336: the body of \<open>for car in snapshot\<close>.\<close>

definition car_finish :: "(string \<rightharpoonup> driver_status) \<Rightarrow> nat \<Rightarrow> car \<Rightarrow> asm_state \<Rightarrow> asm_state" where
  "car_finish dsm i c st =
     (let st' = (case dsm (car_code c) of
                   None \<Rightarrow> st
                 | Some s \<Rightarrow>
                     if laps_completed s < car_lap c \<and> driver_finish_frame st (car_code c) = None
                     then (if is_finished s
                           then st\<lparr>driver_finish_frame := (driver_finish_frame st)(car_code c \<mapsto> i)\<rparr>
                           else st)
                     else st)
      in st'\<lparr>driver_last_seen_lap := (driver_last_seen_lap st')(car_code c \<mapsto> car_lap c)\<rparr>)"

text \<open>Lines 339--357: \<open>frame_data\<close>, filled in the order of the sorted snapshot.\<close>

definition frame_data_of :: "car list \<Rightarrow> (string \<times> frame_driver) list" where
  "frame_data_of snapshot =
     fold (\<lambda>(idx, c) frame_data.
             dict_set frame_data (car_code c)
               \<lparr>fd_x = car_x c, fd_y = car_y c, fd_dist = car_dist c, fd_lap = car_lap c,
                fd_rel_dist = py_round_ndigits (car_rel_dist c) 6, fd_tyre = car_tyre c,
                position = idx + 1, fd_speed = car_speed c, fd_gear = car_gear c,
                fd_drs = car_drs c\<rparr>)
          (enumerate 0 snapshot) []"

text \<open>The body of \<open>for i, t in enumerate(timeline)\<close>.\<close>

definition frame_step ::
  "(string \<rightharpoonup> driver_status) \<Rightarrow> (string \<times> sample list) list \<Rightarrow> nat \<times> real
     \<Rightarrow> asm_state \<Rightarrow> py_error + asm_state" where
  "frame_step dsm resampled_data it st =
     (case it of (i, t) \<Rightarrow>
        (case snapshot_at resampled_data i of
           Inl e \<Rightarrow> Inl e
         | Inr snapshot \<Rightarrow>
             if snapshot = [] then Inr st
             else let sorted_snapshot = sort_snapshot snapshot;
                      leader = hd sorted_snapshot;
                      st1 = leader_finish dsm i leader st;
                      st2 = fold (car_finish dsm i) sorted_snapshot st1
                  in Inr (st2\<lparr>frames := frames st2 @
                            [\<lparr>frame_t = t, frame_lap = car_lap leader,
                              frame_drivers = frame_data_of sorted_snapshot,
                              race_finished = (race_leader_finished_frame st2 \<noteq> None),
                              leader_finished_frame = race_leader_finished_frame st2\<rparr>]\<rparr>)))"

fun frame_loop ::
  "(string \<rightharpoonup> driver_status) \<Rightarrow> (string \<times> sample list) list \<Rightarrow> (nat \<times> real) list
     \<Rightarrow> asm_state \<Rightarrow> py_error + asm_state" where
  "frame_loop dsm resampled_data [] st = Inr st"
| "frame_loop dsm resampled_data (it # its) st =
     (case frame_step dsm resampled_data it st of
        Inl e \<Rightarrow> Inl e
      | Inr st' \<Rightarrow> frame_loop dsm resampled_data its st')"

definition initial_asm_state :: "(string \<times> sample list) list \<Rightarrow> asm_state" where
  "initial_asm_state resampled_data =
     \<lparr>frames = [], driver_last_seen_lap = map_of (map (\<lambda>(code, d). (code, 0)) resampled_data),
      driver_finish_frame = Map.empty, race_leader_finished_frame = None\<rparr>"

definition build_frames ::
  "(string \<rightharpoonup> driver_status) \<Rightarrow> real list \<Rightarrow> (string \<times> sample list) list
     \<Rightarrow> py_error + asm_state" where
  "build_frames dsm timeline resampled_data =
     frame_loop dsm resampled_data (enumerate 0 timeline) (initial_asm_state resampled_data)"

subsection \<open>The whole computation (lines 56--390, the cache and the colours apart)\<close>

record session =
  drivers :: "(string \<times> lap list) list"
  results :: "driver_result list"
  track_status :: "track_status_event list"

record race_telemetry =
  out_frames :: "frame list"
  out_track_statuses :: "track_status_interval list"
  out_driver_status :: "string \<rightharpoonup> driver_status"
  out_driver_finish_frames :: "string \<rightharpoonup> nat"

definition get_race_telemetry ::
  "(real list \<Rightarrow> nat list) \<Rightarrow> session \<Rightarrow> py_error + race_telemetry" where
  "get_race_telemetry argsort s =
     (let dsm = driver_status_map (results s);
          cs = collect_drivers argsort (drivers s)
      in case make_timeline (global_t_min cs) (global_t_max cs) of
           Inl e \<Rightarrow> Inl e
         | Inr timeline \<Rightarrow>
             (case global_t_min cs of
                None \<Rightarrow> Inl TypeError
              | Some gmin \<Rightarrow>
                  let resampled_data = resample argsort gmin timeline (driver_data cs);
                      statuses = formatted_track_statuses gmin (track_status s)
                  in (case build_frames dsm timeline resampled_data of
                        Inl e \<Rightarrow> Inl e
                      | Inr st \<Rightarrow>
                          Inr \<lparr>out_frames = frames st, out_track_statuses = statuses,
                               out_driver_status = dsm,
                               out_driver_finish_frames = driver_finish_frame st\<rparr>)))"

section \<open>\<open>leaderboard_verifier.py\<close>\<close>

subsection \<open>The response of the results service\<close>

text \<open>A decoded JSON document, as \<open>response.json()\<close> returns it. A number is a finite
  value or one of the three floats that are not: the decoder reads \<open>Infinity\<close>,
  \<open>-Infinity\<close> and \<open>NaN\<close>, and a literal too large for a double is infinite. An object is a
  dict and is kept as its items in order.\<close>

datatype json = JNull | JBool bool | JNum real | JInf | JNegInf | JNaN | JStr string
  | JArr "json list" | JObj "(string \<times> json) list"

text \<open>What \<open>requests.get\<close>, \<open>raise_for_status\<close> and \<open>response.json()\<close> do together: raise
  (a connection error, a timeout, an HTTP error status and an undecodable body are all
  \<open>RequestException\<close>s) or return the decoded document.\<close>

datatype http_outcome = Raises py_error | Returns json

definition bind_err :: "py_error + 'a \<Rightarrow> ('a \<Rightarrow> py_error + 'b) \<Rightarrow> py_error + 'b" where
  "bind_err m f = (case m of Inl e \<Rightarrow> Inl e | Inr v \<Rightarrow> f v)"

text \<open>Truth value of a document (\<open>if not races\<close>).\<close>

fun truthy :: "json \<Rightarrow> bool" where
  "truthy JNull = False"
| "truthy (JBool b) = b"
| "truthy (JNum v) = (v \<noteq> 0)"
| "truthy (JStr s) = (s \<noteq> [])"
| "truthy (JArr xs) = (xs \<noteq> [])"
| "truthy (JObj kvs) = (kvs \<noteq> [])"
| "truthy v = True"

text \<open>\<open>v.get(k, dflt)\<close>: only a dict has the method.\<close>

fun py_get :: "json \<Rightarrow> string \<Rightarrow> json \<Rightarrow> py_error + json" where
  "py_get (JObj kvs) k dflt = Inr (case map_of kvs k of None \<Rightarrow> dflt | Some v \<Rightarrow> v)"
| "py_get v k dflt = Inl AttributeError"

text \<open>\<open>v[0]\<close>: the first element of a list, the first character of a string, a missing key
  of a dict (its keys are strings), and no operation at all on the other values.\<close>

fun py_first :: "json \<Rightarrow> py_error + json" where
  "py_first (JArr []) = Inl IndexError"
| "py_first (JArr (v # vs)) = Inr v"
| "py_first (JStr []) = Inl IndexError"
| "py_first (JStr (c # cs)) = Inr (JStr [c])"
| "py_first (JObj kvs) = Inl KeyError"
| "py_first v = Inl TypeError"

text \<open>\<open>for result in v\<close>: what the loop ranges over.\<close>

fun py_iter :: "json \<Rightarrow> py_error + json list" where
  "py_iter (JArr vs) = Inr vs"
| "py_iter (JStr s) = Inr (map (\<lambda>c. JStr [c]) s)"
| "py_iter (JObj kvs) = Inr (map (\<lambda>kv. JStr (fst kv)) kvs)"
| "py_iter v = Inl TypeError"

text \<open>\<open>int(v)\<close> on a document. On a string the built-in follows the grammar of integer
  literals; that grammar is the parameter \<open>to_int\<close>, with \<open>None\<close> for a string it refuses
  (\<open>ValueError\<close>). A finite number is truncated, NaN is refused with \<open>ValueError\<close>, an
  infinite number with \<open>OverflowError\<close>, and \<open>None\<close>, a list and a dict with \<open>TypeError\<close>.\<close>

fun py_int_of :: "(string \<Rightarrow> int option) \<Rightarrow> json \<Rightarrow> py_error + int" where
  "py_int_of to_int (JNum v) = Inr (py_int v)"
| "py_int_of to_int (JBool b) = Inr (if b then 1 else 0)"
| "py_int_of to_int (JStr s) = (case to_int s of Some n \<Rightarrow> Inr n | None \<Rightarrow> Inl ValueError)"
| "py_int_of to_int JNaN = Inl ValueError"
| "py_int_of to_int JInf = Inl OverflowError"
| "py_int_of to_int JNegInf = Inl OverflowError"
| "py_int_of to_int v = Inl TypeError"

subsection \<open>\<open>fetch_race_results_from_jolpica\<close>\<close>

record verified_result =
  vr_code :: json
  vr_position :: int
  vr_driver_id :: json
  vr_status :: json

text \<open>Lines 59--63: the position, 999 where \<open>int\<close> raises \<open>ValueError\<close> or \<open>TypeError\<close>;
  any other exception is not handled here.\<close>

definition position_of :: "(string \<Rightarrow> int option) \<Rightarrow> json \<Rightarrow> py_error + int" where
  "position_of to_int position_str =
     (case py_int_of to_int position_str of
        Inr n \<Rightarrow> Inr n
      | Inl ValueError \<Rightarrow> Inr 999
      | Inl TypeError \<Rightarrow> Inr 999
      | Inl e \<Rightarrow> Inl e)"

text \<open>The body of \<open>for result in results\<close>.\<close>

definition verified_result_of :: "(string \<Rightarrow> int option) \<Rightarrow> json \<Rightarrow> py_error + verified_result" where
  "verified_result_of to_int result =
     bind_err (py_get result ''Driver'' (JObj [])) (\<lambda>driver.
     bind_err (py_get driver ''code'' (JStr [])) (\<lambda>driver_code.
     bind_err (py_get result ''position'' (JStr [])) (\<lambda>position_str.
     bind_err (position_of to_int position_str) (\<lambda>pos.
     bind_err (py_get driver ''driverId'' (JStr [])) (\<lambda>did.
     bind_err (py_get result ''status'' (JStr ''Unknown'')) (\<lambda>st.
       Inr \<lparr>vr_code = driver_code, vr_position = pos, vr_driver_id = did,
            vr_status = st\<rparr>))))))"

fun map_err :: "('a \<Rightarrow> py_error + 'b) \<Rightarrow> 'a list \<Rightarrow> py_error + 'b list" where
  "map_err f [] = Inr []"
| "map_err f (v # vs) =
     bind_err (f v) (\<lambda>w. bind_err (map_err f vs) (\<lambda>ws. Inr (w # ws)))"

text \<open>The \<open>try\<close> block after the document has arrived (lines 37--73).\<close>

definition read_results :: "(string \<Rightarrow> int option) \<Rightarrow> json \<Rightarrow> py_error + verified_result list option" where
  "read_results to_int data =
     bind_err (py_get data ''MRData'' (JObj [])) (\<lambda>mrdata.
     bind_err (py_get mrdata ''RaceTable'' (JObj [])) (\<lambda>race_table.
     bind_err (py_get race_table ''Races'' (JArr [])) (\<lambda>races.
       if \<not> truthy races then Inr None
       else bind_err (py_first races) (\<lambda>race.
            bind_err (py_get race ''Results'' (JArr [])) (\<lambda>results.
              if \<not> truthy results then Inr None
              else bind_err (py_iter results) (\<lambda>rs.
                   bind_err (map_err (verified_result_of to_int) rs) (\<lambda>verified_results.
                     Inr (Some verified_results))))))))"

text \<open>The whole function: the two \<open>except\<close> clauses turn \<open>RequestException\<close>, \<open>KeyError\<close>
  and \<open>IndexError\<close> into the result \<open>None\<close>; any other exception leaves the function.\<close>

definition fetch_race_results_from_jolpica ::
  "(string \<Rightarrow> int option) \<Rightarrow> http_outcome \<Rightarrow> py_error + verified_result list option" where
  "fetch_race_results_from_jolpica to_int resp =
     (case (case resp of Raises e \<Rightarrow> Inl e | Returns data \<Rightarrow> read_results to_int data) of
        Inl RequestException \<Rightarrow> Inr None
      | Inl KeyError \<Rightarrow> Inr None
      | Inl IndexError \<Rightarrow> Inr None
      | Inl e \<Rightarrow> Inl e
      | Inr r \<Rightarrow> Inr r)"

subsection \<open>\<open>verify_and_correct_final_positions\<close>\<close>

text \<open>A list and a dict cannot be a dict key.\<close>

fun hashable :: "json \<Rightarrow> bool" where
  "hashable (JArr vs) = False"
| "hashable (JObj kvs) = False"
| "hashable v = True"

text \<open>Two keys of a dict are the same key when they are equal, and \<open>True\<close> equals 1 and
  \<open>False\<close> equals 0: keys are compared after \<open>key_norm\<close>.\<close>

fun key_norm :: "json \<Rightarrow> json" where
  "key_norm (JBool b) = JNum (if b then 1 else 0)"
| "key_norm v = v"

text \<open>\<open>d[k] = v\<close> and \<open>d.get(k)\<close> on a dict with such keys, kept as its items in
  insertion order: an assignment to a key that is there keeps the key and its place.\<close>

fun py_dict_set :: "(json \<times> 'v) list \<Rightarrow> json \<Rightarrow> 'v \<Rightarrow> (json \<times> 'v) list" where
  "py_dict_set [] k v = [(k, v)]"
| "py_dict_set ((k', v') # d) k v =
     (if key_norm k' = key_norm k then (k', v) # d else (k', v') # py_dict_set d k v)"

fun py_dict_get :: "(json \<times> 'v) list \<Rightarrow> json \<Rightarrow> 'v option" where
  "py_dict_get [] k = None"
| "py_dict_get ((k', v') # d) k = (if key_norm k' = key_norm k then Some v' else py_dict_get d k)"

text \<open>Lines 107--112: \<open>verified_positions\<close>, filled in the order of the results.\<close>

fun build_verified ::
  "(json \<times> int) list \<Rightarrow> verified_result list \<Rightarrow> py_error + (json \<times> int) list" where
  "build_verified verified_positions [] = Inr verified_positions"
| "build_verified verified_positions (r # rs) =
     (if hashable (vr_code r)
      then build_verified (py_dict_set verified_positions (vr_code r) (vr_position r)) rs
      else Inl TypeError)"

text \<open>\<open>current_positions\<close> is a \<open>Dict[str, int]\<close>: its keys are strings. Lines 114--126:
  the codes of \<open>current_positions\<close> that get a discrepancy record.\<close>

definition discrepancies :: "(string \<times> int) list \<Rightarrow> (json \<times> int) list \<Rightarrow> string list" where
  "discrepancies current_positions verified_positions =
     filter (\<lambda>code.
               case py_dict_get verified_positions (JStr code) of
                 None \<Rightarrow> False
               | Some verified_pos \<Rightarrow> map_of current_positions code \<noteq> Some verified_pos)
            (map fst current_positions)"

text \<open>The dict \<open>current_positions\<close> as a returned value.\<close>

definition str_keys :: "(string \<times> int) list \<Rightarrow> (json \<times> int) list" where
  "str_keys current_positions = map (\<lambda>(code, pos). (JStr code, pos)) current_positions"

text \<open>Lines 103--137: what the function does with the result of the fetch.\<close>

definition correct_positions ::
  "(string \<times> int) list \<Rightarrow> verified_result list option \<Rightarrow> py_error + (json \<times> int) list" where
  "correct_positions current_positions api_results =
     (case api_results of
        None \<Rightarrow> Inr (str_keys current_positions)
      | Some rs \<Rightarrow>
          if rs = [] then Inr (str_keys current_positions)
          else (case build_verified [] rs of
                  Inl e \<Rightarrow> Inl e
                | Inr verified_positions \<Rightarrow>
                    if discrepancies current_positions verified_positions \<noteq> []
                    then Inr verified_positions
                    else Inr (str_keys current_positions)))"

definition verify_and_correct_final_positions ::
  "(string \<Rightarrow> int option) \<Rightarrow> (string \<times> int) list \<Rightarrow> http_outcome
     \<Rightarrow> py_error + (json \<times> int) list" where
  "verify_and_correct_final_positions to_int current_positions resp =
     (case fetch_race_results_from_jolpica to_int resp of
        Inl e \<Rightarrow> Inl e
      | Inr api_results \<Rightarrow> correct_positions current_positions api_results)"

subsection \<open>The failures of the results service that the source handles\<close>

text \<open>The races and the results the response holds, read as the source reads them.\<close>

definition races_of :: "json \<Rightarrow> py_error + json" where
  "races_of data =
     bind_err (py_get data ''MRData'' (JObj [])) (\<lambda>mrdata.
     bind_err (py_get mrdata ''RaceTable'' (JObj [])) (\<lambda>race_table.
       py_get race_table ''Races'' (JArr [])))"

definition results_of :: "json \<Rightarrow> py_error + json" where
  "results_of data =
     bind_err (races_of data) (\<lambda>races.
     bind_err (py_first races) (\<lambda>race. py_get race ''Results'' (JArr [])))"

text \<open>The request itself fails (connection, timeout, HTTP status, a body that is not
  JSON).\<close>

definition transport_error :: "http_outcome \<Rightarrow> bool" where
  "transport_error resp \<longleftrightarrow> resp = Raises RequestException"

text \<open>The race list is missing or empty.\<close>

definition no_races :: "http_outcome \<Rightarrow> bool" where
  "no_races resp \<longleftrightarrow>
     (case resp of
        Raises e \<Rightarrow> False
      | Returns data \<Rightarrow> (case races_of data of Inl e \<Rightarrow> False | Inr races \<Rightarrow> \<not> truthy races))"

text \<open>The race list is a dict with entries, so that \<open>races[0]\<close> raises \<open>KeyError\<close>: the one
  failure of reading the document that the second \<open>except\<close> clause catches.\<close>

definition races_not_a_list :: "http_outcome \<Rightarrow> bool" where
  "races_not_a_list resp \<longleftrightarrow>
     (case resp of
        Raises e \<Rightarrow> False
      | Returns data \<Rightarrow>
          (case races_of data of Inr (JObj kvs) \<Rightarrow> kvs \<noteq> [] | _ \<Rightarrow> False))"

text \<open>There is a race, and its result list is missing or empty.\<close>

definition no_results :: "http_outcome \<Rightarrow> bool" where
  "no_results resp \<longleftrightarrow>
     (case resp of
        Raises e \<Rightarrow> False
      | Returns data \<Rightarrow>
          (case races_of data of
             Inl e \<Rightarrow> False
           | Inr races \<Rightarrow> truthy races \<and>
               (case results_of data of Inl e \<Rightarrow> False | Inr rs \<Rightarrow> \<not> truthy rs)))"

section \<open>Example inputs\<close>

text \<open>A telemetry row with a timestamp and an in-lap distance, a lap of such rows, and a
  resampled row with a race distance and a lap value; the other channels are 0.\<close>

definition example_row :: "real \<Rightarrow> real \<Rightarrow> telemetry_row" where
  "example_row t d = \<lparr>row_SessionTime = t, row_X = 0, row_Y = 0, row_Distance = d,
     row_RelativeDistance = 0, row_Speed = 0, row_nGear = 0, row_DRS = 0\<rparr>"

definition example_lap :: "real \<Rightarrow> (real \<times> real) list \<Rightarrow> lap" where
  "example_lap n tds = \<lparr>LapNumber = n, tyre_compund_as_int = 0,
     lap_tel = map (\<lambda>(t, d). example_row t d) tds\<rparr>"

definition example_sample :: "real \<Rightarrow> real \<Rightarrow> sample" where
  "example_sample d l = \<lparr>s_t = 0, s_x = 0, s_y = 0, s_dist = d, s_rel_dist = 0, s_lap = l,
     s_tyre = 0, s_speed = 0, s_gear = 0, s_drs = 0\<rparr>"

text \<open>Race results with a finisher and a retired driver.\<close>

definition example_results :: "driver_result list" where
  "example_results =
     [\<lparr>Abbreviation = ''VER'', Status = ''Finished'', ClassifiedPosition = ''1'', Laps = 1\<rparr>,
      \<lparr>Abbreviation = ''HAM'', Status = ''Retired'', ClassifiedPosition = ''R'', Laps = 1\<rparr>]"

text \<open>A response document with the given result entries, and one result entry.\<close>

definition example_body :: "json list \<Rightarrow> json" where
  "example_body rs =
     JObj [(''MRData'', JObj [(''RaceTable'', JObj [(''Races'', JArr [JObj [(''Results'', JArr rs)]])])])]"

definition example_result :: "string \<Rightarrow> string \<Rightarrow> json" where
  "example_result c p =
     JObj [(''Driver'', JObj [(''code'', JStr c), (''driverId'', JStr c)]),
           (''position'', JStr p), (''status'', JStr ''Finished'')]"

text \<open>\<open>int\<close> on the position strings of the examples: the digits 1 and 2 are read, the
  letter R is refused.\<close>

definition example_to_int :: "string \<Rightarrow> int option" where
  "example_to_int s = (if s = ''1'' then Some 1 else if s = ''2'' then Some 2 else None)"

section \<open>Properties\<close>

subsection \<open>Lap normaliser\<close>

lemma map_s_dist_lap_rows:
  "map s_dist (lap_rows tot l) = map (\<lambda>d. tot + d) (d_lap l)"
proof -
  have len: "length (d_lap l) = length (lap_tel l)"
    by (simp add: d_lap_def Let_def)
  have "map s_dist (lap_rows tot l) = map ((\<lambda>d. tot + d) \<circ> snd) (zip (lap_tel l) (d_lap l))"
    by (simp add: lap_rows_def case_prod_unfold comp_def)
  also have "\<dots> = map (\<lambda>d. tot + d) (map snd (zip (lap_tel l) (d_lap l)))"
    by simp
  also have "map snd (zip (lap_tel l) (d_lap l)) = d_lap l"
    using len by simp
  finally show ?thesis .
qed

lemma d_lap_spec: "d_lap l = spec_shifted (map row_Distance (lap_tel l))"
  by (simp add: d_lap_def spec_shifted_def Let_def)

lemma lap_length_spec: "lap_length l = spec_lap_length (map row_Distance (lap_tel l))"
  by (simp add: lap_length_def spec_lap_length_def d_lap_spec)

lemma fold_lap_step_chunks:
  "map s_dist (concat (snd (fold lap_step laps (tot, chunks)))) =
     map s_dist (concat chunks) @ spec_race_distance tot (map (map row_Distance \<circ> lap_tel) laps)"
proof (induction laps arbitrary: tot chunks)
  case Nil
  show ?case by simp
next
  case (Cons l laps)
  show ?case
  proof (cases "lap_tel l = []")
    case True
    then show ?thesis using Cons.IH [of tot chunks] by (simp add: lap_step_def)
  next
    case False
    then show ?thesis
      using Cons.IH [of "tot + lap_length l" "chunks @ [lap_rows tot l]"]
      by (simp add: lap_step_def map_s_dist_lap_rows d_lap_spec lap_length_spec)
  qed
qed

lemma lap_rows_empty_iff: "lap_rows tot l = [] \<longleftrightarrow> lap_tel l = []"
  by (simp add: lap_rows_def d_lap_def Let_def)

lemma race_dist_all_spec:
  "race_dist_all laps = spec_race_distance 0 (map (map row_Distance \<circ> lap_tel) laps)"
proof -
  obtain tot chunks where f: "fold lap_step laps (0, []) = (tot, chunks)"
    by (cases "fold lap_step laps (0, [])")
  have "map s_dist (concat chunks) = spec_race_distance 0 (map (map row_Distance \<circ> lap_tel) laps)"
    using fold_lap_step_chunks [of laps 0 "[]"] f by simp
  then show ?thesis
    using f by (auto simp: race_dist_all_def merge_laps_def)
qed

lemma Min_spec_shifted:
  assumes "ds \<noteq> []"
  shows "Min (set (spec_shifted ds)) = 0"
proof -
  have fin: "finite (set ds)" and ne: "set ds \<noteq> {}"
    using assms by simp_all
  have "set (spec_shifted ds) = (\<lambda>d. d - Min (set ds)) ` set ds"
    by (simp add: spec_shifted_def)
  moreover have "Min ((\<lambda>d. d - Min (set ds)) ` set ds) = 0"
  proof (rule Min_eqI)
    show "finite ((\<lambda>d. d - Min (set ds)) ` set ds)" by simp
    show "\<And>y. y \<in> (\<lambda>d. d - Min (set ds)) ` set ds \<Longrightarrow> 0 \<le> y"
      using fin by auto
    show "0 \<in> (\<lambda>d. d - Min (set ds)) ` set ds"
      using Min_in [OF fin ne] by force
  qed
  ultimately show ?thesis by simp
qed

text \<open>
  Claim C2. The normaliser's race-distance channel is what the specification describes:
  laps are taken in order, a lap without samples is skipped, each lap's in-lap distances
  are shifted so that their minimum is 0, the lap length is the maximum shifted distance,
  a sample's race distance is the running tot plus its shifted distance, and the running
  tot grows by the lap length after the lap. For in-lap distances [0, 50, 100] on the
  first lap and [0, 60, 120] on the second the channel is [0, 50, 100, 100, 160, 220].
\<close>

theorem normaliser_race_distance:
  "race_dist_all laps = spec_race_distance 0 (map (map row_Distance \<circ> lap_tel) laps)
   \<and> (lap_tel l \<noteq> [] \<longrightarrow> Min (set (d_lap l)) = 0 \<and> lap_length l = Max (set (d_lap l)))
   \<and> (map row_Distance (lap_tel l1) = [0, 50, 100] \<and> map row_Distance (lap_tel l2) = [0, 60, 120]
        \<longrightarrow> race_dist_all [l1, l2] = [0, 50, 100, 100, 160, 220])"
proof (intro conjI impI)
  show "race_dist_all laps = spec_race_distance 0 (map (map row_Distance \<circ> lap_tel) laps)"
    by (rule race_dist_all_spec)
next
  assume "lap_tel l \<noteq> []"
  then show "Min (set (d_lap l)) = 0"
    by (simp add: d_lap_spec Min_spec_shifted)
next
  show "lap_length l = Max (set (d_lap l))"
    by (simp add: lap_length_def)
next
  assume "map row_Distance (lap_tel l1) = [0, 50, 100] \<and> map row_Distance (lap_tel l2) = [0, 60, 120]"
  then show "race_dist_all [l1, l2] = [0, 50, 100, 100, 160, 220]"
    by (simp add: race_dist_all_spec spec_shifted_def spec_lap_length_def)
qed

theorem normaliser_race_distance_witness:
  "lap_tel (example_lap 1 [(0, 0), (1, 50), (2, 100)]) \<noteq> []
   \<and> Min (set (d_lap (example_lap 1 [(0, 0), (1, 50), (2, 100)]))) = 0
   \<and> race_dist_all [example_lap 1 [(0, 0), (1, 50), (2, 100)],
                     example_lap 2 [(3, 0), (4, 60), (5, 120)]] = [0, 50, 100, 100, 160, 220]"
  using normaliser_race_distance [of "[]" "example_lap 1 [(0, 0), (1, 50), (2, 100)]"
          "example_lap 1 [(0, 0), (1, 50), (2, 100)]" "example_lap 2 [(3, 0), (4, 60), (5, 120)]"]
  by (simp add: example_lap_def example_row_def)

subsection \<open>Track-status intervals\<close>

lemma spec_intervals_not_Nil: "spec_intervals g (e # es) \<noteq> []"
  by (cases es) simp_all

lemma status_step_Cons:
  "xs \<noteq> [] \<Longrightarrow> status_step g e (iv # xs) = iv # status_step g e xs"
  by (simp add: status_step_def Let_def)

lemma spec_intervals_snoc:
  "spec_intervals g (es @ [e]) = status_step g e (spec_intervals g es)"
proof (induction g es rule: spec_intervals.induct)
  case (1 gmin)
  show ?case by (simp add: status_step_def Let_def)
next
  case (2 gmin e0)
  show ?case by (simp add: status_step_def Let_def)
next
  case (3 gmin e0 e1 es)
  have "spec_intervals gmin ((e0 # e1 # es) @ [e]) =
          \<lparr>ts_status = ev_Status e0, start_time = ev_Time e0 - gmin,
           end_time = Some (ev_Time e1 - gmin)\<rparr> # spec_intervals gmin ((e1 # es) @ [e])"
    by simp
  also have "\<dots> = \<lparr>ts_status = ev_Status e0, start_time = ev_Time e0 - gmin,
           end_time = Some (ev_Time e1 - gmin)\<rparr> # status_step gmin e (spec_intervals gmin (e1 # es))"
    using "3.IH" by simp
  also have "\<dots> = status_step gmin e (spec_intervals gmin (e0 # e1 # es))"
    by (simp add: status_step_Cons [OF spec_intervals_not_Nil])
  finally show ?case .
qed

lemma formatted_track_statuses_spec:
  "formatted_track_statuses g evs = spec_intervals g evs"
proof (induction evs rule: rev_induct)
  case Nil
  show ?case by (simp add: formatted_track_statuses_def)
next
  case (snoc e evs)
  then show ?case
    by (simp add: formatted_track_statuses_def spec_intervals_snoc)
qed

text \<open>
  Claim C9. For every ordered sequence of track-status events the overlay builder ends each
  interval at the shifted start of the next event and leaves the last interval open. The
  events (0, Clear), (50, Yellow), (80, Clear) with global minimum 0 give the intervals
  (Clear, 0, 50), (Yellow, 50, 80), (Clear, 80, open).
\<close>

theorem track_status_intervals:
  "formatted_track_statuses gmin evs = spec_intervals gmin evs
   \<and> formatted_track_statuses 0
        [\<lparr>ev_Time = 0, ev_Status = ''Clear''\<rparr>, \<lparr>ev_Time = 50, ev_Status = ''Yellow''\<rparr>,
         \<lparr>ev_Time = 80, ev_Status = ''Clear''\<rparr>]
       = [\<lparr>ts_status = ''Clear'', start_time = 0, end_time = Some 50\<rparr>,
          \<lparr>ts_status = ''Yellow'', start_time = 50, end_time = Some 80\<rparr>,
          \<lparr>ts_status = ''Clear'', start_time = 80, end_time = None\<rparr>]"
  by (simp add: formatted_track_statuses_spec)

subsection \<open>Timeline\<close>























subsection \<open>Empty session\<close>

lemma collect_skips:
  assumes "\<forall>drv\<in>set ds. normalise_driver argsort (snd drv) = None"
  shows "fold (driver_step argsort) ds st = st"
  using assms by (induction ds arbitrary: st) (auto simp: driver_step_def)

lemma normalise_driver_None: "normalise_driver argsort laps = None \<longleftrightarrow> merge_laps laps = None"
  by (simp add: normalise_driver_def split: option.splits)

text \<open>
  Claim C5. When no driver contributes a sample, \<open>global_t_min\<close> and \<open>global_t_max\<close> are
  still \<open>None\<close> at line 202, and building the timeline raises \<open>TypeError\<close>: the computation
  ends with that exception instead of an empty frame sequence.
\<close>

theorem empty_session_raises:
  "(\<forall>drv\<in>set (drivers s). merge_laps (snd drv) = None)
   \<Longrightarrow> get_race_telemetry argsort s = Inl TypeError"
proof -
  assume "\<forall>drv\<in>set (drivers s). merge_laps (snd drv) = None"
  then have "collect_drivers argsort (drivers s)
             = \<lparr>driver_data = [], global_t_min = None, global_t_max = None\<rparr>"
    unfolding collect_drivers_def
    by (intro collect_skips) (simp add: normalise_driver_None)
  then show ?thesis
    by (simp add: get_race_telemetry_def make_timeline_def Let_def)
qed

theorem empty_session_raises_witness:
  "get_race_telemetry stable_argsort \<lparr>drivers = [], results = [], track_status = []\<rparr> = Inl TypeError
   \<and> merge_laps [example_lap 1 []] = None
   \<and> get_race_telemetry stable_argsort
        \<lparr>drivers = [(''VER'', [example_lap 1 []])], results = [], track_status = []\<rparr> = Inl TypeError"
  using empty_session_raises [of "\<lparr>drivers = [], results = [], track_status = []\<rparr>" stable_argsort]
    empty_session_raises [of "\<lparr>drivers = [(''VER'', [example_lap 1 []])], results = [], track_status = []\<rparr>" stable_argsort]
  by (simp add: merge_laps_def lap_step_def example_lap_def)

subsection \<open>Finish bookkeeping in the tick loop\<close>

lemma frames_leader_finish [simp]: "frames (leader_finish dsm i c st) = frames st"
  by (simp add: leader_finish_def split: option.splits)

lemma frames_car_finish [simp]: "frames (car_finish dsm i c st) = frames st"
  by (simp add: car_finish_def Let_def split: option.splits)

lemma frames_fold_car_finish [simp]: "frames (fold (car_finish dsm i) cs st) = frames st"
  by (induction cs arbitrary: st) simp_all

lemma rlff_car_finish [simp]:
  "race_leader_finished_frame (car_finish dsm i c st) = race_leader_finished_frame st"
  by (simp add: car_finish_def Let_def split: option.splits)

lemma rlff_fold_car_finish [simp]:
  "race_leader_finished_frame (fold (car_finish dsm i) cs st) = race_leader_finished_frame st"
  by (induction cs arbitrary: st) simp_all

lemma rlff_leader_finish_keeps:
  "race_leader_finished_frame st = Some k
   \<Longrightarrow> race_leader_finished_frame (leader_finish dsm i c st) = Some k"
  by (simp add: leader_finish_def split: option.splits)

lemma dff_car_finish_keeps:
  "driver_finish_frame st code = Some k
   \<Longrightarrow> driver_finish_frame (car_finish dsm i c st) code = Some k"
  by (auto simp: car_finish_def Let_def split: option.splits)

lemma dff_fold_car_finish_keeps:
  "driver_finish_frame st code = Some k
   \<Longrightarrow> driver_finish_frame (fold (car_finish dsm i) cs st) code = Some k"
  by (induction cs arbitrary: st) (simp_all add: dff_car_finish_keeps)

lemma dff_car_finish_not_finished:
  "dsm (car_code c) = Some s \<Longrightarrow> \<not> is_finished s
   \<Longrightarrow> driver_finish_frame (car_finish dsm i c st) = driver_finish_frame st"
  by (simp add: car_finish_def Let_def)

text \<open>What one tick does to the list of frames.\<close>

lemma frame_step_frames:
  assumes "frame_step dsm rd (i, t) st = Inr st'"
  shows "frames st' = frames st
         \<or> (\<exists>snapshot. snapshot_at rd i = Inr snapshot \<and> snapshot \<noteq> []
              \<and> frames st' = frames st @
                   [\<lparr>frame_t = t, frame_lap = car_lap (hd (sort_snapshot snapshot)),
                     frame_drivers = frame_data_of (sort_snapshot snapshot),
                     race_finished = (race_leader_finished_frame st' \<noteq> None),
                     leader_finished_frame = race_leader_finished_frame st'\<rparr>])"
  using assms
  by (auto simp: frame_step_def Let_def split: sum.splits if_splits)

lemma frame_step_rlff:
  assumes "frame_step dsm rd (i, t) st = Inr st'" "race_leader_finished_frame st = Some k"
  shows "race_leader_finished_frame st' = Some k"
  using assms
  by (auto simp: frame_step_def Let_def rlff_leader_finish_keeps split: sum.splits if_splits)

text \<open>The invariant of the tick loop behind the monotone flag: the recorded leader-finish
  index of a frame is the one the loop state still holds, and the frames agree on it from
  the first frame that has it.\<close>

lemma frame_step_flag_invariant:
  assumes step: "frame_step dsm rd (i, t) st = Inr st'"
    and srt: "sorted_wrt (\<lambda>a b. \<forall>k. leader_finished_frame a = Some k
                 \<longrightarrow> leader_finished_frame b = Some k) (frames st)"
    and cur: "\<forall>f\<in>set (frames st). race_finished f = (leader_finished_frame f \<noteq> None)
                \<and> (\<forall>k. leader_finished_frame f = Some k
                       \<longrightarrow> race_leader_finished_frame st = Some k)"
  shows "sorted_wrt (\<lambda>a b. \<forall>k. leader_finished_frame a = Some k
                 \<longrightarrow> leader_finished_frame b = Some k) (frames st')
         \<and> (\<forall>f\<in>set (frames st'). race_finished f = (leader_finished_frame f \<noteq> None)
                \<and> (\<forall>k. leader_finished_frame f = Some k
                       \<longrightarrow> race_leader_finished_frame st' = Some k))"
proof -
  have keep: "\<And>k. race_leader_finished_frame st = Some k
                \<Longrightarrow> race_leader_finished_frame st' = Some k"
    using frame_step_rlff [OF step] .
  from frame_step_frames [OF step] show ?thesis
  proof
    assume same: "frames st' = frames st"
    show ?thesis using same srt cur keep by auto
  next
    assume "\<exists>snapshot. snapshot_at rd i = Inr snapshot \<and> snapshot \<noteq> []
              \<and> frames st' = frames st @
                   [\<lparr>frame_t = t, frame_lap = car_lap (hd (sort_snapshot snapshot)),
                     frame_drivers = frame_data_of (sort_snapshot snapshot),
                     race_finished = (race_leader_finished_frame st' \<noteq> None),
                     leader_finished_frame = race_leader_finished_frame st'\<rparr>]"
    then obtain f where fr: "frames st' = frames st @ [f]"
      and rf: "race_finished f = (race_leader_finished_frame st' \<noteq> None)"
      and lf: "leader_finished_frame f = race_leader_finished_frame st'"
      by auto
    have "sorted_wrt (\<lambda>a b. \<forall>k. leader_finished_frame a = Some k
                 \<longrightarrow> leader_finished_frame b = Some k) (frames st @ [f])"
      using srt cur keep lf by (simp add: sorted_wrt_append)
    moreover have "\<forall>g\<in>set (frames st @ [f]). race_finished g = (leader_finished_frame g \<noteq> None)
                \<and> (\<forall>k. leader_finished_frame g = Some k
                       \<longrightarrow> race_leader_finished_frame st' = Some k)"
      using cur keep rf lf by auto
    ultimately show ?thesis using fr by simp
  qed
qed

lemma frame_loop_flag_invariant:
  assumes "frame_loop dsm rd its st = Inr st'"
    and "sorted_wrt (\<lambda>a b. \<forall>k. leader_finished_frame a = Some k
                 \<longrightarrow> leader_finished_frame b = Some k) (frames st)"
    and "\<forall>f\<in>set (frames st). race_finished f = (leader_finished_frame f \<noteq> None)
                \<and> (\<forall>k. leader_finished_frame f = Some k
                       \<longrightarrow> race_leader_finished_frame st = Some k)"
  shows "sorted_wrt (\<lambda>a b. \<forall>k. leader_finished_frame a = Some k
                 \<longrightarrow> leader_finished_frame b = Some k) (frames st')
         \<and> (\<forall>f\<in>set (frames st'). race_finished f = (leader_finished_frame f \<noteq> None))"
  using assms
proof (induction its arbitrary: st)
  case Nil
  then show ?case by simp
next
  case (Cons it its)
  obtain i t where it: "it = (i, t)" by (cases it)
  from Cons.prems(1) obtain st1 where
    s1: "frame_step dsm rd (i, t) st = Inr st1" and rest: "frame_loop dsm rd its st1 = Inr st'"
    by (auto simp: it split: sum.splits)
  from frame_step_flag_invariant [OF s1 Cons.prems(2) Cons.prems(3)]
  show ?case using Cons.IH [OF rest] by blast
qed

text \<open>
  Claim C4. In the emitted frame sequence, once \<open>race_finished\<close> is true at a frame it is
  true at every later frame, and the leader-finish frame index those frames carry is the
  one recorded first: it is never cleared or changed.
\<close>

theorem race_finished_monotone:
  assumes "build_frames dsm timeline resampled_data = Inr st"
    and "i < j" and "j < length (frames st)"
    and "race_finished (frames st ! i)"
  shows "race_finished (frames st ! j)
         \<and> leader_finished_frame (frames st ! i) \<noteq> None
         \<and> leader_finished_frame (frames st ! j) = leader_finished_frame (frames st ! i)"
proof -
  have inv: "sorted_wrt (\<lambda>a b. \<forall>k. leader_finished_frame a = Some k
                 \<longrightarrow> leader_finished_frame b = Some k) (frames st)
         \<and> (\<forall>f\<in>set (frames st). race_finished f = (leader_finished_frame f \<noteq> None))"
    using frame_loop_flag_invariant [of dsm resampled_data "enumerate 0 timeline"
        "initial_asm_state resampled_data" st] assms(1)
    by (simp add: build_frames_def initial_asm_state_def)
  have fi: "frames st ! i \<in> set (frames st)" and fj: "frames st ! j \<in> set (frames st)"
    using assms(2,3) by simp_all
  from inv fi assms(4) obtain k where k: "leader_finished_frame (frames st ! i) = Some k"
    by auto
  from inv have "leader_finished_frame (frames st ! j) = Some k"
    using k assms(2,3) by (auto simp: sorted_wrt_iff_nth_less)
  then show ?thesis using inv fj k by auto
qed

text \<open>
  Claim C10. When the leader-finish condition holds at a tick (the leader has a status
  entry, its rounded lap exceeds its completed laps, and no leader-finish frame is recorded
  yet), the tick records itself both as the leader-finish frame and as that leader's own
  finish frame, whatever the leader's \<open>is_finished\<close> flag is. The per-driver path, in
  contrast, leaves the finish frames untouched for a driver whose \<open>is_finished\<close> is false.
\<close>

theorem leader_finish_ignores_is_finished:
  assumes "snapshot_at rd i = Inr snapshot" and "snapshot \<noteq> []"
    and "dsm (car_code (hd (sort_snapshot snapshot))) = Some s"
    and "laps_completed s < car_lap (hd (sort_snapshot snapshot))"
    and "race_leader_finished_frame st = None"
  shows "(\<exists>st'. frame_step dsm rd (i, t) st = Inr st'
            \<and> race_leader_finished_frame st' = Some i
            \<and> driver_finish_frame st' (car_code (hd (sort_snapshot snapshot))) = Some i)
         \<and> (dsm (car_code c) = Some s2 \<and> \<not> is_finished s2
              \<longrightarrow> driver_finish_frame (car_finish dsm i c st0) = driver_finish_frame st0)"
proof
  let ?leader = "hd (sort_snapshot snapshot)"
  let ?st1 = "leader_finish dsm i ?leader st"
  let ?st2 = "fold (car_finish dsm i) (sort_snapshot snapshot) ?st1"
  have l1: "race_leader_finished_frame ?st1 = Some i"
    and l2: "driver_finish_frame ?st1 (car_code ?leader) = Some i"
    using assms(3,4,5) by (simp_all add: leader_finish_def)
  have r: "race_leader_finished_frame ?st2 = Some i"
    using l1 by simp
  have d: "driver_finish_frame ?st2 (car_code ?leader) = Some i"
    using l2 by (rule dff_fold_car_finish_keeps)
  have "\<exists>st'. frame_step dsm rd (i, t) st = Inr st' \<and> frames st' = frames ?st2 @
          [\<lparr>frame_t = t, frame_lap = car_lap ?leader,
            frame_drivers = frame_data_of (sort_snapshot snapshot),
            race_finished = True, leader_finished_frame = Some i\<rparr>]
          \<and> race_leader_finished_frame st' = race_leader_finished_frame ?st2
          \<and> driver_finish_frame st' = driver_finish_frame ?st2"
    using assms(1,2) r by (simp add: frame_step_def Let_def)
  then show "\<exists>st'. frame_step dsm rd (i, t) st = Inr st'
            \<and> race_leader_finished_frame st' = Some i
            \<and> driver_finish_frame st' (car_code ?leader) = Some i"
    using r d by auto
next
  show "dsm (car_code c) = Some s2 \<and> \<not> is_finished s2
          \<longrightarrow> driver_finish_frame (car_finish dsm i c st0) = driver_finish_frame st0"
    by (auto simp: dff_car_finish_not_finished)
qed

subsection \<open>Ranks\<close>

lemma dict_set_fresh: "k \<notin> fst ` set d \<Longrightarrow> dict_set d k v = d @ [(k, v)]"
  by (induction d) auto

lemma fold_dict_set_distinct:
  "distinct (map (kf \<circ> snd) xs) \<Longrightarrow> (kf \<circ> snd) ` set xs \<inter> fst ` set acc = {}
   \<Longrightarrow> fold (\<lambda>(idx, c) fd. dict_set fd (kf c) (E idx c)) xs acc
         = acc @ map (\<lambda>(idx, c). (kf c, E idx c)) xs"
proof (induction xs arbitrary: acc)
  case Nil
  show ?case by simp
next
  case (Cons x xs)
  obtain idx c where x: "x = (idx, c)" by (cases x)
  have fresh: "kf c \<notin> fst ` set acc"
    using Cons.prems(2) by (auto simp: x)
  have d: "distinct (map (kf \<circ> snd) xs)"
    using Cons.prems(1) by (simp add: comp_def)
  have disj: "(kf \<circ> snd) ` set xs \<inter> fst ` set (acc @ [(kf c, E idx c)]) = {}"
    using Cons.prems by (auto simp: x)
  show ?case
    using Cons.IH [OF d disj] by (simp add: x dict_set_fresh [OF fresh])
qed

lemma frame_data_of_distinct:
  assumes "distinct (map car_code cs)"
  shows "frame_data_of cs =
     map (\<lambda>(idx, c). (car_code c,
            \<lparr>fd_x = car_x c, fd_y = car_y c, fd_dist = car_dist c, fd_lap = car_lap c,
             fd_rel_dist = py_round_ndigits (car_rel_dist c) 6, fd_tyre = car_tyre c,
             position = idx + 1, fd_speed = car_speed c, fd_gear = car_gear c,
             fd_drs = car_drs c\<rparr>)) (enumerate 0 cs)"
proof -
  have "distinct (map (car_code \<circ> snd) (enumerate 0 cs))"
    using assms by (simp flip: map_map)
  then show ?thesis
    unfolding frame_data_of_def
    using fold_dict_set_distinct [of car_code "enumerate 0 cs" "[]"] by simp
qed

lemma frame_data_of_length:
  "distinct (map car_code cs) \<Longrightarrow> length (frame_data_of cs) = length cs"
  by (simp add: frame_data_of_distinct)

lemma frame_data_of_nth:
  assumes "distinct (map car_code cs)" and "k < length cs"
  shows "fst (frame_data_of cs ! k) = car_code (cs ! k)
         \<and> position (snd (frame_data_of cs ! k)) = k + 1
         \<and> fd_dist (snd (frame_data_of cs ! k)) = car_dist (cs ! k)"
  using assms by (simp add: frame_data_of_distinct nth_enumerate_eq)

lemma sort_snapshot_mset: "mset (sort_snapshot snapshot) = mset snapshot"
  by (simp add: sort_snapshot_def)

lemma sort_snapshot_descending:
  "sorted_wrt (\<lambda>a b. car_dist b \<le> car_dist a) (sort_snapshot snapshot)"
proof -
  have "sorted (map car_dist (sort_key car_dist (rev snapshot)))"
    by (rule sorted_sort_key)
  then have "sorted_wrt (\<lambda>a b. car_dist a \<le> car_dist b) (sort_key car_dist (rev snapshot))"
    by (simp add: sorted_wrt_map)
  then show ?thesis
    by (simp add: sort_snapshot_def sorted_wrt_rev)
qed

lemma snapshot_at_codes:
  "snapshot_at rd i = Inr snapshot \<Longrightarrow> map car_code snapshot = map fst rd"
  by (auto simp: snapshot_at_def split: if_splits)

text \<open>The ranks of a frame built from a sorted snapshot with pairwise different codes.\<close>

lemma ranks_of_sorted_snapshot:
  assumes d: "distinct (map car_code cs)"
    and desc: "sorted_wrt (\<lambda>a b. car_dist b \<le> car_dist a) cs"
    and ne: "cs \<noteq> []"
  shows "position ` snd ` set (frame_data_of cs) = {1..length cs}"
    and "distinct (map (position \<circ> snd) (frame_data_of cs))"
    and "\<forall>(c, e)\<in>set (frame_data_of cs). position e = 1
           \<longrightarrow> (\<forall>(c', e')\<in>set (frame_data_of cs). fd_dist e' \<le> fd_dist e)"
    and "\<exists>(c, e)\<in>set (frame_data_of cs). position e = 1"
proof -
  let ?fd = "frame_data_of cs"
  have len: "length ?fd = length cs"
    using d by (rule frame_data_of_length)
  have pos: "map (position \<circ> snd) ?fd = map Suc [0..<length cs]"
    using d frame_data_of_nth [OF d] len by (intro nth_equalityI) simp_all
  have "position ` snd ` set ?fd = set (map (position \<circ> snd) ?fd)"
    by (simp add: image_comp)
  also have "\<dots> = {1..length cs}"
    unfolding pos by (auto simp: image_iff)
  finally show "position ` snd ` set ?fd = {1..length cs}" .
  show "distinct (map (position \<circ> snd) ?fd)"
    unfolding pos by (simp add: distinct_map)
  show "\<forall>(c, e)\<in>set ?fd. position e = 1 \<longrightarrow> (\<forall>(c', e')\<in>set ?fd. fd_dist e' \<le> fd_dist e)"
  proof (clarify)
    fix c e c' e'
    assume a: "(c, e) \<in> set ?fd" and p: "position e = 1" and b: "(c', e') \<in> set ?fd"
    from a obtain k where k: "k < length cs" "?fd ! k = (c, e)"
      using len by (auto simp: in_set_conv_nth)
    from b obtain m where m: "m < length cs" "?fd ! m = (c', e')"
      using len by (auto simp: in_set_conv_nth)
    have "k = 0"
      using frame_data_of_nth [OF d k(1)] k(2) p by simp
    have e: "fd_dist e = car_dist (cs ! 0)"
      using frame_data_of_nth [OF d k(1)] k(2) \<open>k = 0\<close> by simp
    have e': "fd_dist e' = car_dist (cs ! m)"
      using frame_data_of_nth [OF d m(1)] m(2) by simp
    have "car_dist (cs ! m) \<le> car_dist (cs ! 0)"
    proof (cases "m = 0")
      case True then show ?thesis by simp
    next
      case False
      then show ?thesis
        using desc m(1) by (simp add: sorted_wrt_iff_nth_less)
    qed
    then show "fd_dist e' \<le> fd_dist e" using e e' by simp
  qed
  have "0 < length cs" using ne by simp
  then have "?fd ! 0 \<in> set ?fd" and "position (snd (?fd ! 0)) = 1"
    using len frame_data_of_nth [OF d, of 0] by simp_all
  then show "\<exists>(c, e)\<in>set ?fd. position e = 1"
    by (metis (mono_tags, lifting) case_prod_beta)
qed

lemma frame_loop_drivers:
  assumes "frame_loop dsm rd its st = Inr st'"
    and "\<forall>f\<in>set (frames st). \<exists>i snapshot. snapshot_at rd i = Inr snapshot \<and> snapshot \<noteq> []
            \<and> frame_drivers f = frame_data_of (sort_snapshot snapshot)"
  shows "\<forall>f\<in>set (frames st'). \<exists>i snapshot. snapshot_at rd i = Inr snapshot \<and> snapshot \<noteq> []
            \<and> frame_drivers f = frame_data_of (sort_snapshot snapshot)"
  using assms
proof (induction its arbitrary: st)
  case Nil
  then show ?case by simp
next
  case (Cons it its)
  obtain i t where it: "it = (i, t)" by (cases it)
  from Cons.prems(1) obtain st1 where
    s1: "frame_step dsm rd (i, t) st = Inr st1" and rest: "frame_loop dsm rd its st1 = Inr st'"
    by (auto simp: it split: sum.splits)
  have "\<forall>f\<in>set (frames st1). \<exists>i snapshot. snapshot_at rd i = Inr snapshot \<and> snapshot \<noteq> []
            \<and> frame_drivers f = frame_data_of (sort_snapshot snapshot)"
    using frame_step_frames [OF s1] Cons.prems(2) by (elim disjE exE) auto
  then show ?case by (rule Cons.IH [OF rest])
qed

text \<open>
  Claim C1. In every emitted frame the ranks of the drivers are exactly 1, ..., n, where n
  is the number of drivers in the frame, no two drivers share a rank, and the driver of
  rank 1 has the largest race distance of the frame. (The codes of \<open>resampled_data\<close> are
  pairwise different because it is a dict.)
\<close>

theorem frame_ranks:
  assumes "distinct (map fst resampled_data)"
    and "build_frames dsm timeline resampled_data = Inr st"
    and "f \<in> set (frames st)"
  shows "position ` snd ` set (frame_drivers f) = {1..length (frame_drivers f)}
         \<and> distinct (map (position \<circ> snd) (frame_drivers f))
         \<and> length (frame_drivers f) = length resampled_data
         \<and> mset (map fst (frame_drivers f)) = mset (map fst resampled_data)
         \<and> (\<forall>(c, e)\<in>set (frame_drivers f). position e = 1
              \<longrightarrow> (\<forall>(c', e')\<in>set (frame_drivers f). fd_dist e' \<le> fd_dist e))
         \<and> (\<exists>(c, e)\<in>set (frame_drivers f). position e = 1)"
proof -
  have "\<forall>f\<in>set (frames st). \<exists>i snapshot. snapshot_at resampled_data i = Inr snapshot
          \<and> snapshot \<noteq> [] \<and> frame_drivers f = frame_data_of (sort_snapshot snapshot)"
    using frame_loop_drivers [of dsm resampled_data "enumerate 0 timeline"
        "initial_asm_state resampled_data" st] assms(2)
    by (simp add: build_frames_def initial_asm_state_def)
  then obtain i snapshot where snap: "snapshot_at resampled_data i = Inr snapshot"
    and ne: "snapshot \<noteq> []"
    and fd: "frame_drivers f = frame_data_of (sort_snapshot snapshot)"
    using assms(3) by blast
  let ?cs = "sort_snapshot snapshot"
  have codes: "mset (map car_code ?cs) = mset (map fst resampled_data)"
    using snapshot_at_codes [OF snap] sort_snapshot_mset [of snapshot]
    by (metis mset_map)
  have d: "distinct (map car_code ?cs)"
    using codes assms(1) by (metis mset_eq_imp_distinct_iff)
  have ne': "?cs \<noteq> []"
    using ne sort_snapshot_mset [of snapshot] by (metis mset_zero_iff)
  have len: "length ?cs = length resampled_data"
    using codes by (metis length_map size_mset)
  have keys: "map fst (frame_data_of ?cs) = map car_code ?cs"
    using frame_data_of_nth [OF d] frame_data_of_length [OF d]
    by (intro nth_equalityI) simp_all
  note r = ranks_of_sorted_snapshot [OF d sort_snapshot_descending ne']
  show ?thesis
    unfolding fd
    using r len keys codes by (simp add: frame_data_of_length [OF d])
qed

lemma example_status_VER:
  "driver_status_map example_results ''VER'' =
     Some \<lparr>status = ''Finished'', classification = ''1'', laps_completed = 1,
           is_finished = True, is_dnf = False\<rparr>"
  by (simp add: driver_status_map_def example_results_def result_step_def py_int_def Let_def)

lemma example_status_HAM:
  "driver_status_map example_results ''HAM'' =
     Some \<lparr>status = ''Retired'', classification = ''R'', laps_completed = 1,
           is_finished = False, is_dnf = True\<rparr>"
  by (simp add: driver_status_map_def example_results_def result_step_def py_int_def Let_def)

lemma py_round_example [simp]: "py_round 1 = 1" "py_round 2 = 2" "py_round 0 = 0"
  by (simp_all add: py_round_def Let_def)

lemma py_int_example [simp]: "py_int 0 = 0"
  by (simp add: py_int_def)

theorem frame_ranks_witness:
  "distinct (map fst [(''HAM'', [example_sample 4500 1]), (''VER'', [example_sample 5000 1])])
   \<and> (\<exists>st f. build_frames (driver_status_map example_results) [100]
                 [(''HAM'', [example_sample 4500 1]), (''VER'', [example_sample 5000 1])] = Inr st
         \<and> frames st = [f]
         \<and> map (\<lambda>(c, e). (c, position e, fd_dist e)) (frame_drivers f)
             = [(''VER'', 1, 5000), (''HAM'', 2, 4500)]
         \<and> position ` snd ` set (frame_drivers f) = {1..2})"
proof -
  let ?rd = "[(''HAM'', [example_sample 4500 1]), (''VER'', [example_sample 5000 1])]"
  have d: "distinct (map fst ?rd)" by simp
  obtain st where b: "build_frames (driver_status_map example_results) [100] ?rd = Inr st"
    by (simp add: build_frames_def frame_step_def snapshot_at_def Let_def)
  have "\<exists>f. frames st = [f]
         \<and> map (\<lambda>(c, e). (c, position e, fd_dist e)) (frame_drivers f)
             = [(''VER'', 1, 5000), (''HAM'', 2, 4500)]"
    using b
    by (auto simp: build_frames_def frame_step_def snapshot_at_def Let_def initial_asm_state_def
        sort_snapshot_def frame_data_of_def example_sample_def)
  then obtain f where f1: "frames st = [f]"
    and f2: "map (\<lambda>(c, e). (c, position e, fd_dist e)) (frame_drivers f)
             = [(''VER'', 1, 5000), (''HAM'', 2, 4500)]"
    by (elim exE conjE)
  have "length (map (\<lambda>(c, e). (c, position e, fd_dist e)) (frame_drivers f)) = 2"
    unfolding f2 by simp
  then have len: "length (frame_drivers f) = 2"
    by simp
  have "position ` snd ` set (frame_drivers f) = {1..length (frame_drivers f)}"
    using frame_ranks [OF d b, of f] f1 by simp
  then show ?thesis using d b f1 f2 len by auto
qed

theorem race_finished_monotone_witness:
  "\<exists>st. build_frames (driver_status_map example_results) [0, 1 / 25, 2 / 25]
           [(''VER'', [example_sample 10 1, example_sample 20 2, example_sample 30 2])] = Inr st
        \<and> map race_finished (frames st) = [False, True, True]
        \<and> map leader_finished_frame (frames st) = [None, Some 1, Some 1]
        \<and> race_finished (frames st ! 2)"
proof -
  let ?rd = "[(''VER'', [example_sample 10 1, example_sample 20 2, example_sample 30 2])]"
  obtain st where
    b: "build_frames (driver_status_map example_results) [0, 1 / 25, 2 / 25] ?rd = Inr st"
    by (simp add: build_frames_def frame_step_def snapshot_at_def Let_def)
  have fl: "map race_finished (frames st) = [False, True, True]
            \<and> map leader_finished_frame (frames st) = [None, Some 1, Some 1]"
    using b
    by (auto simp: build_frames_def frame_step_def snapshot_at_def Let_def initial_asm_state_def
        sort_snapshot_def leader_finish_def car_finish_def example_status_VER example_sample_def)
  have "length (map race_finished (frames st)) = 3"
    using fl by simp
  then have len: "2 < length (frames st)" by simp
  have "race_finished (frames st ! 1)"
    using fl len by (metis One_nat_def nth_Cons_0 nth_Cons_Suc nth_map less_trans one_less_numeral_iff semiring_norm(76))
  then have "race_finished (frames st ! 2)"
    using race_finished_monotone [OF b, of 1 2] len by simp
  with b fl show ?thesis by (intro exI [of _ st]) simp
qed

theorem leader_finish_ignores_is_finished_witness:
  "driver_status_map example_results ''HAM'' =
     Some \<lparr>status = ''Retired'', classification = ''R'', laps_completed = 1,
           is_finished = False, is_dnf = True\<rparr>
   \<and> (\<exists>st'. frame_step (driver_status_map example_results) [(''HAM'', [example_sample 100 2])]
                (0, 0) (initial_asm_state [(''HAM'', [example_sample 100 2])]) = Inr st'
          \<and> race_leader_finished_frame st' = Some 0
          \<and> driver_finish_frame st' ''HAM'' = Some 0)"
proof -
  let ?rd = "[(''HAM'', [example_sample 100 2])]"
  let ?snap = "[\<lparr>car_code = ''HAM'', car_dist = 100, car_x = 0, car_y = 0, car_lap = 2,
                 car_rel_dist = 0, car_tyre = 0, car_speed = 0, car_gear = 0, car_drs = 0\<rparr>]"
  have s: "snapshot_at ?rd 0 = Inr ?snap"
    by (simp add: snapshot_at_def example_sample_def)
  have h: "hd (sort_snapshot ?snap) = hd ?snap"
    by (simp add: sort_snapshot_def)
  have "\<exists>st'. frame_step (driver_status_map example_results) ?rd (0, 0) (initial_asm_state ?rd) = Inr st'
          \<and> race_leader_finished_frame st' = Some 0
          \<and> driver_finish_frame st' (car_code (hd (sort_snapshot ?snap))) = Some 0"
    using leader_finish_ignores_is_finished [OF s, of "driver_status_map example_results"
        "\<lparr>status = ''Retired'', classification = ''R'', laps_completed = 1,
           is_finished = False, is_dnf = True\<rparr>" "initial_asm_state ?rd" 0]
    by (simp add: h example_status_HAM initial_asm_state_def)
  then show ?thesis
    by (simp add: h example_status_HAM)
qed

subsection \<open>Leaderboard verifier\<close>

text \<open>The failures the source handles end in the result \<open>None\<close>, and the verifier then
  returns the mapping it was given.\<close>

lemma fetch_None_cases:
  assumes "transport_error resp \<or> races_not_a_list resp \<or> no_races resp \<or> no_results resp"
  shows "fetch_race_results_from_jolpica to_int resp = Inr None"
proof -
  consider (t) "transport_error resp" | (p) "races_not_a_list resp" | (r) "no_races resp"
    | (s) "no_results resp"
    using assms by blast
  then show ?thesis
  proof cases
    case t
    then show ?thesis
      by (simp add: transport_error_def fetch_race_results_from_jolpica_def)
  next
    case p
    then obtain data kvs where d: "resp = Returns data" and rc: "races_of data = Inr (JObj kvs)"
      and ne: "kvs \<noteq> []"
      by (auto simp: races_not_a_list_def split: http_outcome.splits sum.splits json.splits)
    have "read_results to_int data = Inl KeyError"
      using rc ne
      by (auto simp: read_results_def races_of_def bind_err_def split: sum.splits)
    then show ?thesis
      by (simp add: d fetch_race_results_from_jolpica_def)
  next
    case r
    then obtain data races where d: "resp = Returns data" and rc: "races_of data = Inr races"
      and f: "\<not> truthy races"
      by (auto simp: no_races_def split: http_outcome.splits sum.splits)
    have "read_results to_int data = Inr None"
      using rc f
      by (auto simp: read_results_def races_of_def bind_err_def split: sum.splits)
    then show ?thesis
      by (simp add: d fetch_race_results_from_jolpica_def)
  next
    case s
    then obtain data races rs where d: "resp = Returns data"
      and rc: "races_of data = Inr races" and tr: "truthy races"
      and rr: "results_of data = Inr rs" and f: "\<not> truthy rs"
      by (auto simp: no_results_def split: http_outcome.splits sum.splits)
    have "read_results to_int data = Inr None"
      using rc tr rr f
      by (auto simp: read_results_def races_of_def results_of_def bind_err_def split: sum.splits)
    then show ?thesis
      by (simp add: d fetch_race_results_from_jolpica_def)
  qed
qed

lemma verifier_handled_failures:
  "transport_error resp \<or> races_not_a_list resp \<or> no_races resp \<or> no_results resp
   \<Longrightarrow> verify_and_correct_final_positions to_int current_positions resp
         = Inr (str_keys current_positions)"
  by (simp add: verify_and_correct_final_positions_def correct_positions_def fetch_None_cases)

text \<open>
  Claim C8. The correction step does not return its input on every unusable response. A
  response that cannot be read as the expected document -- a \<open>null\<close> body, a \<open>null\<close> in
  the place of \<open>MRData\<close>, a \<open>null\<close> entry in the result list -- makes \<open>.get\<close> raise
  \<open>AttributeError\<close>; the \<open>except\<close> clauses handle \<open>RequestException\<close>, \<open>KeyError\<close> and
  \<open>IndexError\<close> only, so the exception leaves the fetch and the verifier.
\<close>

theorem verifier_parse_failure_propagates:
  "verify_and_correct_final_positions to_int current_positions (Returns JNull)
     = Inl AttributeError
   \<and> verify_and_correct_final_positions to_int current_positions
       (Returns (JObj [(''MRData'', JNull)])) = Inl AttributeError
   \<and> verify_and_correct_final_positions to_int current_positions
       (Returns (example_body [JNull])) = Inl AttributeError"
  by (simp add: verify_and_correct_final_positions_def fetch_race_results_from_jolpica_def
      read_results_def verified_result_of_def bind_err_def example_body_def)

text \<open>A position too large for a double is read as an infinite float; \<open>int\<close> raises
  \<open>OverflowError\<close> on it, which neither \<open>try\<close> handles.\<close>

lemma fetch_infinite_position:
  "fetch_race_results_from_jolpica to_int
     (Returns (example_body
        [JObj [(''Driver'', JObj [(''code'', JStr ''VER'')]), (''position'', JInf)]]))
   = Inl OverflowError"
  by (simp add: fetch_race_results_from_jolpica_def read_results_def example_body_def
      bind_err_def verified_result_of_def position_of_def)

lemma map_of_dict_set: "map_of (dict_set d k v) = (map_of d)(k \<mapsto> v)"
  by (induction d) (auto simp: fun_eq_iff)

lemma keys_dict_set: "fst ` set (dict_set d k v) = insert k (fst ` set d)"
proof -
  have "map_of (dict_set d k v) = (map_of d)(k \<mapsto> v)"
    by (rule map_of_dict_set)
  then have "dom (map_of (dict_set d k v)) = insert k (dom (map_of d))"
    by simp
  then show ?thesis by (simp add: dom_map_of_conv_image_fst)
qed

lemma distinct_dict_set: "distinct (map fst d) \<Longrightarrow> distinct (map fst (dict_set d k v))"
  by (induction d) (auto simp: keys_dict_set)

text \<open>A dict with Python's key equality is a dict on the normal forms of its keys.\<close>

lemma norm_py_dict_set:
  "map (\<lambda>(k, v). (key_norm k, v)) (py_dict_set d k v)
     = dict_set (map (\<lambda>(k, v). (key_norm k, v)) d) (key_norm k) v"
  by (induction d) auto

lemma py_dict_get_norm:
  "py_dict_get d k = map_of (map (\<lambda>(k, v). (key_norm k, v)) d) (key_norm k)"
  by (induction d) auto

lemma build_verified_map:
  assumes "build_verified acc rs = Inr verified"
    and "distinct (map fst (map (\<lambda>(k, v). (key_norm k, v)) acc))"
  shows "map_of (map (\<lambda>(k, v). (key_norm k, v)) verified)
           = map_of (map (\<lambda>(k, v). (key_norm k, v)) acc)
               ++ map_of (rev (map (\<lambda>r. (key_norm (vr_code r), vr_position r)) rs))
         \<and> distinct (map fst (map (\<lambda>(k, v). (key_norm k, v)) verified))
         \<and> fst ` set (map (\<lambda>(k, v). (key_norm k, v)) verified)
             = fst ` set (map (\<lambda>(k, v). (key_norm k, v)) acc) \<union> (\<lambda>r. key_norm (vr_code r)) ` set rs"
  using assms
proof (induction rs arbitrary: acc)
  case Nil
  then show ?case by simp
next
  case (Cons r rs)
  let ?N = "map (\<lambda>(k, v). (key_norm k, v))"
  from Cons.prems(1) have h: "hashable (vr_code r)"
    and b: "build_verified (py_dict_set acc (vr_code r) (vr_position r)) rs = Inr verified"
    by (auto split: if_splits)
  have n: "?N (py_dict_set acc (vr_code r) (vr_position r))
             = dict_set (?N acc) (key_norm (vr_code r)) (vr_position r)"
    by (rule norm_py_dict_set)
  have d: "distinct (map fst (?N (py_dict_set acc (vr_code r) (vr_position r))))"
    unfolding n using Cons.prems(2) by (rule distinct_dict_set)
  from Cons.IH [OF b d] show ?case
    unfolding n
    by (auto simp: map_of_dict_set keys_dict_set map_add_upd_left fun_eq_iff map_add_def
        split: option.splits)
qed

lemma discrepancies_iff:
  "discrepancies current_positions verified \<noteq> [] \<longleftrightarrow>
     (\<exists>code\<in>fst ` set current_positions. \<exists>q. py_dict_get verified (JStr code) = Some q
          \<and> map_of current_positions code \<noteq> Some q)"
  by (auto simp: discrepancies_def filter_empty_conv split: option.splits)

text \<open>
  Claim C7, amended. When the external source yields a non-empty result list (whose driver
  codes can be dict keys), the verifier looks for a driver code of the input mapping that
  also occurs in the external result with a different position. If there is one, the
  returned mapping is the one built from the external result alone: looking a code up in it
  gives the position of the last external entry with that code and nothing for a code that
  is not external, its keys are the external codes and no two of them are equal, so input
  codes absent from the external result are dropped. If there is none, the input mapping is
  returned unchanged. (Codes are compared as Python compares dict keys.)
\<close>

theorem verifier_replaces_on_discrepancy:
  assumes "fetch_race_results_from_jolpica to_int resp = Inr (Some api_results)"
    and "api_results \<noteq> []"
    and "build_verified [] api_results = Inr verified"
  shows "verify_and_correct_final_positions to_int current_positions resp =
           Inr (if \<exists>code\<in>fst ` set current_positions. \<exists>q.
                       py_dict_get verified (JStr code) = Some q
                       \<and> map_of current_positions code \<noteq> Some q
                then verified else str_keys current_positions)
         \<and> (\<forall>k. py_dict_get verified k
                = map_of (rev (map (\<lambda>r. (key_norm (vr_code r), vr_position r)) api_results))
                    (key_norm k))
         \<and> distinct (map (\<lambda>kv. key_norm (fst kv)) verified)
         \<and> (\<lambda>kv. key_norm (fst kv)) ` set verified
             = (\<lambda>r. key_norm (vr_code r)) ` set api_results"
proof -
  have v: "verify_and_correct_final_positions to_int current_positions resp =
             Inr (if discrepancies current_positions verified \<noteq> [] then verified
                  else str_keys current_positions)"
    using assms by (simp add: verify_and_correct_final_positions_def correct_positions_def)
  note m = build_verified_map [OF assms(3), simplified]
  have m1: "\<forall>k. py_dict_get verified k
                = map_of (rev (map (\<lambda>r. (key_norm (vr_code r), vr_position r)) api_results))
                    (key_norm k)"
    using m by (simp add: py_dict_get_norm)
  have e: "map fst (map (\<lambda>(k, v). (key_norm k, v)) verified) = map (\<lambda>kv. key_norm (fst kv)) verified"
    by (simp add: case_prod_unfold)
  have m2: "distinct (map (\<lambda>kv. key_norm (fst kv)) verified)"
    using build_verified_map [OF assms(3)] unfolding e by simp
  have "fst ` set (map (\<lambda>(k, v). (key_norm k, v)) verified)
          = (\<lambda>r. key_norm (vr_code r)) ` set api_results"
    using build_verified_map [OF assms(3)] by simp
  moreover have "fst ` set (map (\<lambda>(k, v). (key_norm k, v)) verified)
          = (\<lambda>kv. key_norm (fst kv)) ` set verified"
    by (force simp: image_iff)
  ultimately have m3: "(\<lambda>kv. key_norm (fst kv)) ` set verified
             = (\<lambda>r. key_norm (vr_code r)) ` set api_results"
    by simp
  show ?thesis
    using v m1 m2 m3 unfolding discrepancies_iff by simp
qed

theorem verifier_replaces_on_discrepancy_witness:
  "verify_and_correct_final_positions example_to_int [(''VER'', 2), (''XXX'', 3)]
     (Returns (example_body [example_result ''VER'' ''1'', example_result ''HAM'' ''R'']))
   = Inr [(JStr ''VER'', 1), (JStr ''HAM'', 999)]"
proof -
  let ?resp = "Returns (example_body [example_result ''VER'' ''1'', example_result ''HAM'' ''R''])"
  let ?rs = "[\<lparr>vr_code = JStr ''VER'', vr_position = 1, vr_driver_id = JStr ''VER'',
               vr_status = JStr ''Finished''\<rparr>,
              \<lparr>vr_code = JStr ''HAM'', vr_position = 999, vr_driver_id = JStr ''HAM'',
               vr_status = JStr ''Finished''\<rparr>]"
  have f: "fetch_race_results_from_jolpica example_to_int ?resp = Inr (Some ?rs)"
    by (simp add: fetch_race_results_from_jolpica_def read_results_def example_body_def
        example_result_def bind_err_def verified_result_of_def position_of_def
        example_to_int_def)
  have ne: "?rs \<noteq> []" by simp
  have b: "build_verified [] ?rs = Inr [(JStr ''VER'', 1), (JStr ''HAM'', 999)]"
    by simp
  show ?thesis
    using verifier_replaces_on_discrepancy [OF f ne b, of "[(''VER'', 2), (''XXX'', 3)]"]
    by simp
qed

text \<open>
  With an external result that agrees with the input on the codes they share, the input is
  returned as it is: \<open>XXX\<close>, absent from the external result, is not dropped.
\<close>

theorem verifier_full_replacement_counterexample:
  "fetch_race_results_from_jolpica example_to_int
     (Returns (example_body [example_result ''VER'' ''1'']))
     = Inr (Some [\<lparr>vr_code = JStr ''VER'', vr_position = 1, vr_driver_id = JStr ''VER'',
                   vr_status = JStr ''Finished''\<rparr>])
   \<and> verify_and_correct_final_positions example_to_int [(''VER'', 1), (''XXX'', 2)]
        (Returns (example_body [example_result ''VER'' ''1'']))
     = Inr [(JStr ''VER'', 1), (JStr ''XXX'', 2)]"
  by (simp add: verify_and_correct_final_positions_def correct_positions_def discrepancies_def
      str_keys_def fetch_race_results_from_jolpica_def read_results_def example_body_def
      example_result_def bind_err_def verified_result_of_def position_of_def
      example_to_int_def)

text \<open>Two external codes that Python takes for one key: the entry for \<open>true\<close> overwrites
  the position of the entry for 1 and the key 1 stays.\<close>

lemma build_verified_equal_keys:
  "build_verified []
     [\<lparr>vr_code = JNum 1, vr_position = 5, vr_driver_id = JNull, vr_status = JNull\<rparr>,
      \<lparr>vr_code = JBool True, vr_position = 7, vr_driver_id = JNull, vr_status = JNull\<rparr>]
   = Inr [(JNum 1, 7)]"
  by simp

subsection \<open>Monotone race distance\<close>

lemma length_d_lap [simp]: "length (d_lap l) = length (lap_tel l)"
  by (simp add: d_lap_def Let_def)

lemma length_lap_rows [simp]: "length (lap_rows tot l) = length (lap_tel l)"
  by (simp add: lap_rows_def)

lemma lap_rows_nth:
  assumes "i < length (lap_tel l)"
  shows "s_t (lap_rows tot l ! i) = row_SessionTime (lap_tel l ! i)"
    and "s_dist (lap_rows tot l ! i) = tot + d_lap l ! i"
  using assms by (simp_all add: lap_rows_def)

lemma d_lap_bounds:
  assumes "i < length (lap_tel l)"
  shows "0 \<le> d_lap l ! i" and "d_lap l ! i \<le> lap_length l"
proof -
  have ne: "map row_Distance (lap_tel l) \<noteq> []"
    using assms by auto
  have mem: "d_lap l ! i \<in> set (d_lap l)"
    using assms by simp
  have "Min (set (d_lap l)) = 0"
    using ne by (simp add: d_lap_spec Min_spec_shifted)
  then show "0 \<le> d_lap l ! i"
    using mem by (metis List.finite_set Min_le)
  show "d_lap l ! i \<le> lap_length l"
    unfolding lap_length_def using mem by simp
qed

lemma d_lap_sorted:
  assumes "lap_ordered l"
  shows "sorted (d_lap l)"
proof -
  have "sorted (map row_Distance (lap_tel l))"
    using assms by (simp add: lap_ordered_def)
  then show ?thesis
    by (simp add: d_lap_def Let_def sorted_wrt_map sorted_map)
qed

lemma d_lap_first:
  assumes "lap_ordered l" and "lap_tel l \<noteq> []"
  shows "d_lap l ! 0 = 0"
proof -
  have n: "0 < length (lap_tel l)" using assms(2) by simp
  have "Min (set (d_lap l)) = d_lap l ! 0"
  proof (rule Min_eqI)
    show "finite (set (d_lap l))" by simp
    show "d_lap l ! 0 \<in> set (d_lap l)" using n by simp
    fix y assume "y \<in> set (d_lap l)"
    then obtain j where "j < length (d_lap l)" "d_lap l ! j = y"
      by (auto simp: in_set_conv_nth)
    then show "d_lap l ! 0 \<le> y"
      using d_lap_sorted [OF assms(1)] by (auto simp: sorted_iff_nth_mono)
  qed
  moreover have "Min (set (d_lap l)) = 0"
    using assms(2) by (simp add: d_lap_spec Min_spec_shifted)
  ultimately show ?thesis by simp
qed

lemma d_lap_last:
  assumes "lap_ordered l" and "lap_tel l \<noteq> []"
  shows "d_lap l ! (length (lap_tel l) - 1) = lap_length l"
proof -
  have n: "0 < length (lap_tel l)" using assms(2) by simp
  have "Max (set (d_lap l)) = d_lap l ! (length (lap_tel l) - 1)"
  proof (rule Max_eqI)
    show "finite (set (d_lap l))" by simp
    show "d_lap l ! (length (lap_tel l) - 1) \<in> set (d_lap l)" using n by simp
    fix y assume "y \<in> set (d_lap l)"
    then obtain j where "j < length (d_lap l)" "d_lap l ! j = y"
      by (auto simp: in_set_conv_nth)
    then show "y \<le> d_lap l ! (length (lap_tel l) - 1)"
      using d_lap_sorted [OF assms(1)] by (auto simp: sorted_iff_nth_mono)
  qed
  then show ?thesis by (simp add: lap_length_def)
qed

lemma lap_times_increasing:
  assumes "lap_ordered l" and "i < j" and "j < length (lap_tel l)"
  shows "row_SessionTime (lap_tel l ! i) < row_SessionTime (lap_tel l ! j)"
proof -
  have "sorted_wrt (<) (map row_SessionTime (lap_tel l))"
    using assms(1) by (simp add: lap_ordered_def)
  then show ?thesis
    using assms(2,3) by (auto simp: sorted_wrt_iff_nth_less)
qed

lemma lap_rows_in_order:
  assumes "lap_ordered l"
  shows "sorted_wrt in_order (lap_rows tot l)"
proof -
  have "in_order (lap_rows tot l ! i) (lap_rows tot l ! j)"
    if "i < j" and "j < length (lap_tel l)" for i j
  proof -
    have t: "row_SessionTime (lap_tel l ! i) < row_SessionTime (lap_tel l ! j)"
      using lap_times_increasing [OF assms that] .
    have d: "d_lap l ! i \<le> d_lap l ! j"
      using d_lap_sorted [OF assms] that by (auto simp: sorted_iff_nth_mono)
    show ?thesis
      using t d that by (simp add: in_order_def lap_rows_nth)
  qed
  then show ?thesis
    by (simp add: sorted_wrt_iff_nth_less)
qed

lemma lap_rows_bounds:
  assumes "b \<in> set (lap_rows tot l)"
  shows "tot \<le> s_dist b" and "s_dist b \<le> tot + lap_length l"
proof -
  from assms obtain i where i: "i < length (lap_tel l)" "lap_rows tot l ! i = b"
    by (auto simp: in_set_conv_nth)
  show "tot \<le> s_dist b"
    using d_lap_bounds(1) [OF i(1)] lap_rows_nth(2) [OF i(1), of tot] i(2) by simp
  show "s_dist b \<le> tot + lap_length l"
    using d_lap_bounds(2) [OF i(1)] lap_rows_nth(2) [OF i(1), of tot] i(2) by simp
qed

lemma lap_rows_earliest:
  assumes "lap_ordered l" and "b \<in> set (lap_rows tot l)"
    and "\<forall>b'\<in>set (lap_rows tot l). s_t b \<le> s_t b'"
  shows "s_dist b = tot"
proof -
  from assms(2) obtain i where i: "i < length (lap_tel l)" "lap_rows tot l ! i = b"
    by (auto simp: in_set_conv_nth)
  have ne: "lap_tel l \<noteq> []" using i(1) by auto
  have z: "0 < length (lap_tel l)" using ne by simp
  have "i = 0"
  proof (rule ccontr)
    assume "i \<noteq> 0"
    then have "0 < i" by simp
    then have "row_SessionTime (lap_tel l ! 0) < row_SessionTime (lap_tel l ! i)"
      using lap_times_increasing [OF assms(1) _ i(1)] by simp
    then have "s_t (lap_rows tot l ! 0) < s_t (lap_rows tot l ! i)"
      using i(1) z by (simp add: lap_rows_nth(1))
    then have lt: "s_t (lap_rows tot l ! 0) < s_t b"
      using i(2) by simp
    have "lap_rows tot l ! 0 \<in> set (lap_rows tot l)"
      using z by simp
    then have "s_t b \<le> s_t (lap_rows tot l ! 0)"
      using assms(3) by blast
    then show False using lt by simp
  qed
  then show ?thesis
    using d_lap_first [OF assms(1) ne] lap_rows_nth(2) [OF i(1), of tot] i(2) by simp
qed

lemma lap_rows_latest:
  assumes "lap_ordered l" and "b \<in> set (lap_rows tot l)"
    and "\<forall>b'\<in>set (lap_rows tot l). s_t b' \<le> s_t b"
  shows "s_dist b = tot + lap_length l"
proof -
  from assms(2) obtain i where i: "i < length (lap_tel l)" "lap_rows tot l ! i = b"
    by (auto simp: in_set_conv_nth)
  have ne: "lap_tel l \<noteq> []" using i(1) by auto
  let ?n = "length (lap_tel l) - 1"
  have n: "?n < length (lap_tel l)" using i(1) by simp
  have "i = ?n"
  proof (rule ccontr)
    assume "i \<noteq> ?n"
    then have lt: "i < ?n" using i(1) by simp
    have "row_SessionTime (lap_tel l ! i) < row_SessionTime (lap_tel l ! ?n)"
      using lap_times_increasing [OF assms(1) lt n] .
    then have "s_t (lap_rows tot l ! i) < s_t (lap_rows tot l ! ?n)"
      using i(1) n by (simp add: lap_rows_nth(1))
    then have lt: "s_t b < s_t (lap_rows tot l ! ?n)"
      using i(2) by simp
    have "lap_rows tot l ! ?n \<in> set (lap_rows tot l)"
      using n by simp
    then have "s_t (lap_rows tot l ! ?n) \<le> s_t b"
      using assms(3) by blast
    then show False using lt by simp
  qed
  then show ?thesis
    using d_lap_last [OF assms(1) ne] lap_rows_nth(2) [OF i(1), of tot] i(2) by simp
qed

lemma lap_rows_times: "s_t ` set (lap_rows tot l) = row_SessionTime ` set (lap_tel l)"
proof -
  have "map s_t (lap_rows tot l) = map row_SessionTime (lap_tel l)"
    by (intro nth_equalityI) (simp_all add: lap_rows_nth(1))
  then have "set (map s_t (lap_rows tot l)) = set (map row_SessionTime (lap_tel l))"
    by simp
  then show ?thesis by simp
qed

lemma chained_step:
  assumes inv: "chained tot ms" and ord: "lap_ordered l" and ne: "lap_tel l \<noteq> []"
    and cross: "\<forall>a\<in>set ms. \<forall>b\<in>set (lap_rows tot l). s_t a \<le> s_t b"
  shows "chained (tot + lap_length l) (ms @ lap_rows tot l)"
proof -
  let ?rows = "lap_rows tot l"
  have i1: "sorted_wrt in_order ms" and i2: "\<forall>a\<in>set ms. s_dist a \<le> tot"
    and i3: "\<forall>a\<in>set ms. (\<forall>a'\<in>set ms. s_t a' \<le> s_t a) \<longrightarrow> s_dist a = tot"
    using inv by (simp_all add: chained_def)
  have "?rows \<noteq> []" using ne by (simp add: lap_rows_empty_iff)
  then obtain b0 where b0: "b0 \<in> set ?rows" by (cases ?rows) auto
  have len: "0 \<le> lap_length l"
    using lap_rows_bounds [OF b0] by simp
  have pair: "in_order a b" if a: "a \<in> set ms" and b: "b \<in> set ?rows" for a b
  proof -
    have t: "s_t a \<le> s_t b" using cross a b by blast
    have d: "s_dist a \<le> s_dist b"
      using i2 a lap_rows_bounds(1) [OF b] by fastforce
    have e: "s_dist a = s_dist b" if eq: "s_t a = s_t b"
    proof -
      have "\<forall>a'\<in>set ms. s_t a' \<le> s_t a"
        using cross b eq by fastforce
      then have da: "s_dist a = tot" using i3 a by blast
      have "\<forall>b'\<in>set ?rows. s_t b \<le> s_t b'"
        using cross a eq by fastforce
      then have "s_dist b = tot"
        using lap_rows_earliest [OF ord b] by blast
      then show ?thesis using da by simp
    qed
    show ?thesis using t d e by (simp add: in_order_def)
  qed
  have c1: "sorted_wrt in_order (ms @ ?rows)"
    using i1 lap_rows_in_order [OF ord] pair by (simp add: sorted_wrt_append)
  have c2: "\<forall>a\<in>set (ms @ ?rows). s_dist a \<le> tot + lap_length l"
  proof
    fix a assume "a \<in> set (ms @ ?rows)"
    then consider "a \<in> set ms" | "a \<in> set ?rows" by auto
    then show "s_dist a \<le> tot + lap_length l"
    proof cases
      case 1
      then have "s_dist a \<le> tot" using i2 by blast
      then show ?thesis using len by simp
    next
      case 2
      then show ?thesis using lap_rows_bounds(2) by blast
    qed
  qed
  have c3: "\<forall>a\<in>set (ms @ ?rows). (\<forall>a'\<in>set (ms @ ?rows). s_t a' \<le> s_t a)
              \<longrightarrow> s_dist a = tot + lap_length l"
  proof (intro ballI impI)
    fix a assume a: "a \<in> set (ms @ ?rows)"
      and top: "\<forall>a'\<in>set (ms @ ?rows). s_t a' \<le> s_t a"
    show "s_dist a = tot + lap_length l"
    proof (cases "a \<in> set ?rows")
      case True
      have "\<forall>b'\<in>set ?rows. s_t b' \<le> s_t a" using top by simp
      then show ?thesis using lap_rows_latest [OF ord True] by blast
    next
      case False
      then have am: "a \<in> set ms" using a by simp
      have same: "\<forall>b\<in>set ?rows. s_t b = s_t a"
      proof
        fix b assume b: "b \<in> set ?rows"
        have "s_t b \<le> s_t a" using top b by simp
        moreover have "s_t a \<le> s_t b" using cross am b by blast
        ultimately show "s_t b = s_t a" by simp
      qed
      have "\<forall>b'\<in>set ?rows. s_t b0 \<le> s_t b'" using same b0 by simp
      then have e1: "s_dist b0 = tot"
        using lap_rows_earliest [OF ord b0] by blast
      have "\<forall>b'\<in>set ?rows. s_t b' \<le> s_t b0" using same b0 by simp
      then have e2: "s_dist b0 = tot + lap_length l"
        using lap_rows_latest [OF ord b0] by blast
      have "\<forall>a'\<in>set ms. s_t a' \<le> s_t a" using top by simp
      then have "s_dist a = tot" using i3 am by blast
      then show ?thesis using e1 e2 by simp
    qed
  qed
  show ?thesis
    unfolding chained_def using c1 c2 c3 by blast
qed

lemma fold_lap_step_chained:
  assumes "\<forall>l\<in>set laps. lap_ordered l" and "laps_in_sequence laps"
    and "chained tot (concat chunks)"
    and "\<forall>a\<in>set (concat chunks). \<forall>l\<in>set laps. \<forall>r\<in>set (lap_tel l). s_t a \<le> row_SessionTime r"
  shows "chained (fst (fold lap_step laps (tot, chunks)))
           (concat (snd (fold lap_step laps (tot, chunks))))"
  using assms
proof (induction laps arbitrary: tot chunks)
  case Nil
  then show ?case by simp
next
  case (Cons l laps)
  have ord: "lap_ordered l" and ords: "\<forall>l\<in>set laps. lap_ordered l"
    using Cons.prems(1) by simp_all
  have seq: "laps_in_sequence laps"
    and later: "\<forall>l'\<in>set laps. \<forall>r\<in>set (lap_tel l). \<forall>r'\<in>set (lap_tel l').
                  row_SessionTime r \<le> row_SessionTime r'"
    using Cons.prems(2) by (simp_all add: laps_in_sequence_def)
  have p4: "s_t a \<le> row_SessionTime r"
    if "a \<in> set (concat chunks)" and "l' \<in> set (l # laps)" and "r \<in> set (lap_tel l')"
    for a l' r
    using Cons.prems(4) that by blast
  show ?case
  proof (cases "lap_tel l = []")
    case True
    have "\<forall>a\<in>set (concat chunks). \<forall>l\<in>set laps. \<forall>r\<in>set (lap_tel l). s_t a \<le> row_SessionTime r"
      using p4 by (meson list.set_intros(2))
    from Cons.IH [OF ords seq Cons.prems(3) this] show ?thesis
      using True by (simp add: lap_step_def)
  next
    case False
    have cross: "\<forall>a\<in>set (concat chunks). \<forall>b\<in>set (lap_rows tot l). s_t a \<le> s_t b"
    proof (intro ballI)
      fix a b assume a: "a \<in> set (concat chunks)" and b: "b \<in> set (lap_rows tot l)"
      from b have "s_t b \<in> row_SessionTime ` set (lap_tel l)"
        using lap_rows_times [of tot l] by blast
      then obtain r where "r \<in> set (lap_tel l)" "s_t b = row_SessionTime r" by blast
      then show "s_t a \<le> s_t b" using p4 [OF a, of l r] by simp
    qed
    have inv': "chained (tot + lap_length l) (concat (chunks @ [lap_rows tot l]))"
      using chained_step [OF Cons.prems(3) ord False cross] by simp
    have nxt: "\<forall>a\<in>set (concat (chunks @ [lap_rows tot l])). \<forall>l'\<in>set laps.
                 \<forall>r\<in>set (lap_tel l'). s_t a \<le> row_SessionTime r"
    proof (intro ballI)
      fix a l' r assume a: "a \<in> set (concat (chunks @ [lap_rows tot l]))"
        and l': "l' \<in> set laps" and r: "r \<in> set (lap_tel l')"
      from a consider "a \<in> set (concat chunks)" | "a \<in> set (lap_rows tot l)" by auto
      then show "s_t a \<le> row_SessionTime r"
      proof cases
        case 1
        then show ?thesis using p4 [of a l' r] l' r by simp
      next
        case 2
        then have "s_t a \<in> row_SessionTime ` set (lap_tel l)"
          using lap_rows_times [of tot l] by blast
        then obtain r0 where "r0 \<in> set (lap_tel l)" "s_t a = row_SessionTime r0" by blast
        then show ?thesis using later l' r by simp
      qed
    qed
    from Cons.IH [OF ords seq inv' nxt] show ?thesis
      using False by (simp add: lap_step_def)
  qed
qed

lemma merge_laps_in_order:
  assumes "\<forall>l\<in>set laps. lap_ordered l" and "laps_in_sequence laps"
    and "merge_laps laps = Some merged"
  shows "sorted_wrt in_order merged"
proof -
  have "chained 0 (concat [])" by (simp add: chained_def)
  then have "chained (fst (fold lap_step laps (0, []))) (concat (snd (fold lap_step laps (0, []))))"
    using fold_lap_step_chained [OF assms(1,2), of 0 "[]"] by simp
  moreover have "merged = concat (snd (fold lap_step laps (0, [])))"
    using assms(3) by (auto simp: merge_laps_def split: prod.splits if_splits)
  ultimately show ?thesis by (simp add: chained_def)
qed

lemma in_order_any_two:
  assumes "sorted_wrt in_order ms" and "a \<in> set ms" and "b \<in> set ms" and "s_t a \<le> s_t b"
  shows "s_dist a \<le> s_dist b"
proof -
  from assms(2) obtain i where i: "i < length ms" "ms ! i = a" by (auto simp: in_set_conv_nth)
  from assms(3) obtain j where j: "j < length ms" "ms ! j = b" by (auto simp: in_set_conv_nth)
  consider "i < j" | "i = j" | "j < i" by linarith
  then show ?thesis
  proof cases
    case 1
    then have "in_order a b"
      using assms(1) i j by (auto simp: sorted_wrt_iff_nth_less)
    then show ?thesis by (simp add: in_order_def)
  next
    case 2
    then show ?thesis using i j by simp
  next
    case 3
    then have "in_order b a"
      using assms(1) i j by (auto simp: sorted_wrt_iff_nth_less)
    then show ?thesis using assms(4) by (auto simp: in_order_def)
  qed
qed

lemma argsort_sorts_distance:
  assumes "sorted_wrt in_order ms" and "is_argsort (map s_t ms) order"
  shows "sorted (map s_dist (take_order ms order))"
proof -
  have "set order = set [0..<length ms]"
    using assms(2) by (metis is_argsort_def length_map mset_eq_setD)
  then have rng: "\<forall>i\<in>set order. i < length ms" by simp
  have eq: "map (\<lambda>i. map s_t ms ! i) order = map (\<lambda>i. s_t (ms ! i)) order"
    using rng by simp
  have "sorted (map (\<lambda>i. map s_t ms ! i) order)"
    using assms(2) by (simp add: is_argsort_def)
  then have "sorted (map (\<lambda>i. s_t (ms ! i)) order)"
    unfolding eq .
  then have "sorted_wrt (\<lambda>i j. s_t (ms ! i) \<le> s_t (ms ! j)) order"
    by (simp add: sorted_wrt_map)
  then have "sorted_wrt (\<lambda>i j. s_dist (ms ! i) \<le> s_dist (ms ! j)) order"
  proof (rule sorted_wrt_mono_rel [rotated])
    fix i j assume "i \<in> set order" "j \<in> set order" "s_t (ms ! i) \<le> s_t (ms ! j)"
    then show "s_dist (ms ! i) \<le> s_dist (ms ! j)"
      using in_order_any_two [OF assms(1), of "ms ! i" "ms ! j"] rng by simp
  qed
  then show ?thesis
    by (simp add: take_order_def sorted_wrt_map comp_def)
qed

lemma stable_argsort_is_argsort: "is_argsort ts (stable_argsort ts)"
proof -
  let ?ps = "sort_key fst (zip ts [0..<length ts])"
  have m: "mset (stable_argsort ts) = mset [0..<length ts]"
  proof -
    have z: "map snd (zip ts [0..<length ts]) = [0..<length ts]"
      by simp
    have "mset (map snd ?ps) = mset (map snd (zip ts [0..<length ts]))"
      by (simp only: mset_map mset_sort)
    then show ?thesis
      unfolding stable_argsort_def z .
  qed
  have pairs: "ts ! snd p = fst p" if "p \<in> set ?ps" for p
  proof -
    from that have "p \<in> set (zip ts [0..<length ts])" by simp
    then show ?thesis by (auto simp: in_set_zip)
  qed
  have e: "map (\<lambda>i. ts ! i) (map snd ?ps) = map fst ?ps"
    using pairs by simp
  have s: "sorted (map (\<lambda>i. ts ! i) (map snd ?ps))"
    unfolding e by (rule sorted_sort_key)
  show ?thesis
    unfolding is_argsort_def
    using m s unfolding stable_argsort_def by (intro conjI)
qed

text \<open>
  Claim C6, amended. If within every lap of a driver time increases from sample to sample
  and the in-lap distance does not decrease, and no sample of a lap is earlier than a sample
  of a lap before it, then after the merged samples are re-sorted by time (by any index
  array that sorts the timestamps) the race distance is non-decreasing along the trace.
\<close>

theorem race_distance_monotone:
  assumes "\<forall>l\<in>set laps. lap_ordered l" and "laps_in_sequence laps"
    and "\<forall>ts. is_argsort ts (argsort ts)"
  shows "sorted (dist_channel argsort laps)"
proof (cases "merge_laps laps")
  case None
  then show ?thesis by (simp add: dist_channel_def normalise_driver_def)
next
  case (Some merged)
  have "sorted_wrt in_order merged"
    using merge_laps_in_order [OF assms(1,2) Some] .
  moreover have "is_argsort (map s_t merged) (argsort (map s_t merged))"
    using assms(3) by blast
  ultimately have "sorted (map s_dist (take_order merged (argsort (map s_t merged))))"
    by (rule argsort_sorts_distance)
  then show ?thesis
    using Some by (simp add: dist_channel_def normalise_driver_def)
qed

theorem race_distance_monotone_witness:
  "lap_ordered (example_lap 1 [(0, 0), (1, 50), (2, 100)])
   \<and> lap_ordered (example_lap 2 [(2, 0), (3, 60), (4, 120)])
   \<and> laps_in_sequence [example_lap 1 [(0, 0), (1, 50), (2, 100)],
                         example_lap 2 [(2, 0), (3, 60), (4, 120)]]
   \<and> dist_channel stable_argsort [example_lap 1 [(0, 0), (1, 50), (2, 100)],
                                    example_lap 2 [(2, 0), (3, 60), (4, 120)]]
       = [0, 50, 100, 100, 160, 220]
   \<and> sorted (dist_channel stable_argsort [example_lap 1 [(0, 0), (1, 50), (2, 100)],
                                            example_lap 2 [(2, 0), (3, 60), (4, 120)]])"
proof -
  let ?l1 = "example_lap 1 [(0, 0), (1, 50), (2, 100)]"
  let ?l2 = "example_lap 2 [(2, 0), (3, 60), (4, 120)]"
  have o1: "lap_ordered ?l1" and o2: "lap_ordered ?l2"
    by (simp_all add: lap_ordered_def example_lap_def example_row_def)
  have sq: "laps_in_sequence [?l1, ?l2]"
    by (simp add: laps_in_sequence_def example_lap_def example_row_def)
  have a: "\<forall>ts. is_argsort ts (stable_argsort ts)"
    by (simp add: stable_argsort_is_argsort)
  have v: "dist_channel stable_argsort [?l1, ?l2] = [0, 50, 100, 100, 160, 220]"
    by (simp add: dist_channel_def normalise_driver_def merge_laps_def lap_step_def
        lap_rows_def d_lap_def lap_length_def take_order_def stable_argsort_def
        example_lap_def example_row_def upt_rec)
  have "sorted (dist_channel stable_argsort [?l1, ?l2])"
    using race_distance_monotone [of "[?l1, ?l2]" stable_argsort] o1 o2 sq a by simp
  then show ?thesis using o1 o2 sq v by simp
qed

text \<open>
  Without the two conditions the claim fails. Lap 1 has samples at 0 s, 1 s and 3 s, lap 2
  at 2 s, 2.5 s and 4 s: the telemetry of the two laps overlaps. All timestamps differ, so
  the sorted order is fixed, and the race distance falls from 130 to 100 at 3 s.
\<close>

theorem race_distance_monotone_counterexample:
  "dist_channel stable_argsort [example_lap 1 [(0, 0), (1, 50), (3, 100)],
                                example_lap 2 [(2, 0), (5 / 2, 30), (4, 60)]]
     = [0, 50, 100, 130, 100, 160]
   \<and> \<not> sorted (dist_channel stable_argsort [example_lap 1 [(0, 0), (1, 50), (3, 100)],
                                example_lap 2 [(2, 0), (5 / 2, 30), (4, 60)]])"
proof -
  have v: "dist_channel stable_argsort [example_lap 1 [(0, 0), (1, 50), (3, 100)],
                                example_lap 2 [(2, 0), (5 / 2, 30), (4, 60)]]
     = [0, 50, 100, 130, 100, 160]"
    by (simp add: dist_channel_def normalise_driver_def merge_laps_def lap_step_def
        lap_rows_def d_lap_def lap_length_def take_order_def stable_argsort_def
        example_lap_def example_row_def upt_rec)
  show ?thesis unfolding v by simp
qed

subsection \<open>The computation as a whole\<close>

lemma resample_codes_distinct:
  "distinct (map fst (resample argsort gmin timeline dd))"
proof -
  have "distinct (map fst acc) \<Longrightarrow>
        distinct (map fst (fold (\<lambda>(code, data) rd.
           dict_set rd code (resample_driver argsort gmin timeline data)) dd acc))" for acc
    by (induction dd arbitrary: acc) (auto simp: distinct_dict_set)
  then show ?thesis by (simp add: resample_def)
qed

lemma set_dict_set_subset: "set (dict_set d k v) \<subseteq> insert (k, v) (set d)"
  by (induction d) (auto split: if_splits)

lemma dict_set_values:
  "\<forall>(k', v')\<in>set d. P v' \<Longrightarrow> P v \<Longrightarrow> \<forall>(k', v')\<in>set (dict_set d k v). P v'"
  using set_dict_set_subset [of d k v] by auto

lemma resample_lengths:
  "\<forall>(code, d)\<in>set (resample argsort gmin timeline dd). length d = length timeline"
proof -
  have "\<forall>(code, d)\<in>set acc. length d = length timeline \<Longrightarrow>
        \<forall>(code, d)\<in>set (fold (\<lambda>(code, data) rd.
           dict_set rd code (resample_driver argsort gmin timeline data)) dd acc).
          length d = length timeline" for acc
  proof (induction dd arbitrary: acc)
    case Nil
    then show ?case by simp
  next
    case (Cons x dd)
    obtain code data where x: "x = (code, data)" by (cases x)
    have "\<forall>(c, d)\<in>set (dict_set acc code (resample_driver argsort gmin timeline data)).
            length d = length timeline"
      using Cons.prems by (intro dict_set_values) (simp_all add: resample_driver_def Let_def)
    from Cons.IH [OF this] show ?case by (simp add: x)
  qed
  from this [of "[]"] show ?thesis by (simp add: resample_def)
qed

text \<open>The tick loop raises nothing when every array is as long as the timeline.\<close>

lemma frame_loop_total:
  assumes "\<forall>(i, t)\<in>set its. list_all (\<lambda>(code, d). i < length d) rd"
  shows "\<exists>st'. frame_loop dsm rd its st = Inr st'"
  using assms
proof (induction its arbitrary: st)
  case Nil
  show ?case by simp
next
  case (Cons it its)
  obtain i t where it: "it = (i, t)" by (cases it)
  have "list_all (\<lambda>(code, d). i < length d) rd"
    using Cons.prems by (simp add: it)
  then have "\<exists>st1. frame_step dsm rd (i, t) st = Inr st1"
    by (cases "rd = []") (simp_all add: frame_step_def snapshot_at_def Let_def)
  then obtain st1 where s1: "frame_step dsm rd (i, t) st = Inr st1" ..
  have "\<exists>st'. frame_loop dsm rd its st1 = Inr st'"
    using Cons.IH Cons.prems by simp
  then show ?case using s1 by (simp add: it)
qed

lemma build_frames_total:
  assumes "\<forall>(code, d)\<in>set rd. length d = length timeline"
  shows "\<exists>st. build_frames dsm timeline rd = Inr st"
proof -
  have "\<forall>(i, t)\<in>set (enumerate 0 timeline). list_all (\<lambda>(code, d). i < length d) rd"
    using assms by (auto simp: in_set_enumerate_eq list_all_iff)
  then show ?thesis
    unfolding build_frames_def by (rule frame_loop_total)
qed

text \<open>Once a driver with samples has been seen, both bounds are set.\<close>

lemma collect_bounds:
  assumes "driver_data (collect_drivers argsort ds) \<noteq> []"
  shows "\<exists>a b. global_t_min (collect_drivers argsort ds) = Some a
           \<and> global_t_max (collect_drivers argsort ds) = Some b"
proof -
  have "(driver_data st \<noteq> [] \<longrightarrow> global_t_min st \<noteq> None \<and> global_t_max st \<noteq> None)
        \<Longrightarrow> (driver_data (fold (driver_step argsort) ds st) \<noteq> []
             \<longrightarrow> global_t_min (fold (driver_step argsort) ds st) \<noteq> None
               \<and> global_t_max (fold (driver_step argsort) ds st) \<noteq> None)" for st
  proof (induction ds arbitrary: st)
    case Nil
    then show ?case by simp
  next
    case (Cons d ds)
    have "driver_data (driver_step argsort d st) \<noteq> []
          \<longrightarrow> global_t_min (driver_step argsort d st) \<noteq> None
              \<and> global_t_max (driver_step argsort d st) \<noteq> None"
      using Cons.prems
      by (auto simp: driver_step_def Let_def split: prod.splits option.splits)
    from Cons.IH [OF this] show ?case by simp
  qed
  from this [of "\<lparr>driver_data = [], global_t_min = None, global_t_max = None\<rparr>"]
  show ?thesis
    using assms by (auto simp: collect_drivers_def)
qed

text \<open>With at least one driver trace the whole computation returns a result: the empty
  session is the only input on which it raises.\<close>

lemma get_race_telemetry_returns:
  assumes "driver_data (collect_drivers argsort (drivers s)) \<noteq> []"
  shows "\<exists>out. get_race_telemetry argsort s = Inr out"
proof -
  from collect_bounds [OF assms] obtain a b where
    ab: "global_t_min (collect_drivers argsort (drivers s)) = Some a"
        "global_t_max (collect_drivers argsort (drivers s)) = Some b"
    by blast
  let ?tl = "timeline_ticks a b"
  let ?rd = "resample argsort a ?tl (driver_data (collect_drivers argsort (drivers s)))"
  obtain st where "build_frames (driver_status_map (results s)) ?tl ?rd = Inr st"
    using build_frames_total [OF resample_lengths] by blast
  then show ?thesis
    using ab by (simp add: get_race_telemetry_def make_timeline_def Let_def)
qed

text \<open>When the timestamps are pairwise different, only one index array sorts them, so the
  trace does not depend on the sorting algorithm.\<close>

lemma is_argsort_unique:
  assumes "distinct ts" and "is_argsort ts order"
  shows "order = stable_argsort ts"
proof -
  let ?o = "stable_argsort ts"
  have s: "is_argsort ts ?o" by (rule stable_argsort_is_argsort)
  have m: "mset order = mset ?o"
    using assms(2) s by (simp add: is_argsort_def)
  have "mset (map (\<lambda>i. ts ! i) order) = mset (map (\<lambda>i. ts ! i) ?o)"
    using m by (metis mset_map)
  moreover have "sorted (map (\<lambda>i. ts ! i) order)" "sorted (map (\<lambda>i. ts ! i) ?o)"
    using assms(2) s by (simp_all add: is_argsort_def)
  ultimately have eq: "map (\<lambda>i. ts ! i) order = map (\<lambda>i. ts ! i) ?o"
    by (metis properties_for_sort)
  have "set order = set [0..<length ts]" "set ?o = set [0..<length ts]"
    using assms(2) s by (metis is_argsort_def mset_eq_setD)+
  then have "inj_on (\<lambda>i. ts ! i) (set order \<union> set ?o)"
    using assms(1) by (auto simp: inj_on_def nth_eq_iff_index_eq)
  then show ?thesis
    using eq by (simp add: inj_on_map_eq_map)
qed

end
